theory Spec2Isabelle
  imports Main
begin

section \<open>Data of the port simulation\<close>

text \<open>
  One row of the arrival table read by \<open>run_simulation\<close> (columns \<open>ship_id\<close>,
  \<open>arrival_time_minutes\<close>, \<open>cargo_containers\<close>), and the dictionary \<open>ship_data\<close> that a
  finished ship appends to \<open>results_data\<close>.
\<close>

record arrival_row =
  row_ship_id :: int
  row_arrival_time_minutes :: int
  row_cargo_containers :: int

record ship_data =
  ship_id :: int
  cargo_containers :: int
  time_arrived_port :: int
  time_docked :: int
  time_crane_secured :: int
  time_unloading_complete :: int
  time_departed_port :: int

text \<open>The exceptions that can leave \<open>run_simulation\<close>; all come from the event library.\<close>

datatype error =
    Negative_delay int
  | Bad_capacity
  | Bad_until
  | Empty_schedule

text \<open>
  The events of the run. Every event object the program creates is one of these: the
  start and the timeouts of \<open>arrival_process\<close>, the start of a ship, its two granted
  requests, its unloading timeout, the two release events, the events of finished or failed
  processes, and the event that ends \<open>env.run(until=...)\<close>. Ships are numbered in spawn order.
\<close>

datatype event =
    Init_driver
  | Arrival_timeout
  | Driver_done
  | Driver_failed error
  | Init_ship nat
  | Berth_request nat
  | Crane_request nat
  | Unload_timeout nat
  | Release_crane nat
  | Release_berth nat
  | Ship_done nat
  | Ship_failed nat error
  | Until

text \<open>An entry of the event queue: the tuple \<open>(time, priority, eid, event)\<close>.\<close>

record entry =
  etime :: int
  eprio :: nat
  eid :: nat
  ev :: event

definition URGENT :: nat where "URGENT = 0"
definition NORMAL :: nat where "NORMAL = 1"

text \<open>A \<open>Resource\<close>: its capacity, the requests holding a unit, the requests waiting.\<close>

record resource =
  capacity :: int
  users :: "nat list"
  put_queue :: "nat list"

text \<open>
  The frame of a ship's generator: where it is suspended, with the arguments and the
  timestamps written to \<open>ship_data\<close> so far.
\<close>

datatype ship_frame =
    Not_started int int
  | At_berth_request int int int
  | At_crane_request int int int int
  | At_unload_timeout int int int int int
  | Returned
  | Raised

text \<open>
  What the ship processes did, in the order they did it: the milestones that \<open>ship_process\<close>
  prints and its two releases. The state keeps this history beside \<open>results_data\<close>; nothing
  in the run reads it.
\<close>

datatype action =
    Arrived nat
  | Docked nat
  | Secured_crane nat
  | Finished_unloading nat
  | Crane_released nat
  | Berth_released nat
  | Departed nat

record sim_state =
  now :: int
  queue :: "entry list"
  next_eid :: nat
  berths :: resource
  cranes :: resource
  rows :: "arrival_row list"
  pending :: "arrival_row option"
  ships :: "ship_frame list"
  results_data :: "ship_data list"
  history :: "action list"

datatype status = Continue | Stop | Crash error

section \<open>The event queue\<close>

text \<open>
  The queue is a heap of tuples compared lexicographically; \<open>eid\<close> is a counter, so no
  two entries compare equal. The model keeps the entries in that order in a list.
\<close>

definition before :: "entry \<Rightarrow> entry \<Rightarrow> bool" where
  "before x y \<longleftrightarrow>
     etime x < etime y \<or>
     (etime x = etime y \<and> (eprio x < eprio y \<or> (eprio x = eprio y \<and> eid x < eid y)))"

fun heappush :: "entry \<Rightarrow> entry list \<Rightarrow> entry list" where
  "heappush x [] = [x]"
| "heappush x (y # ys) = (if before x y then x # y # ys else y # heappush x ys)"

definition schedule :: "event \<Rightarrow> nat \<Rightarrow> int \<Rightarrow> sim_state \<Rightarrow> sim_state" where
  "schedule e priority delay st =
     st\<lparr>queue := heappush \<lparr>etime = now st + delay, eprio = priority, eid = next_eid st, ev = e\<rparr>
                     (queue st),
        next_eid := Suc (next_eid st)\<rparr>"

section \<open>Resources\<close>

text \<open>
  \<open>_trigger_put\<close> looks at the head of the waiting requests only (\<open>_do_put\<close> returns
  nothing, so the loop stops after one request): with a free unit the head becomes a user
  and its request event is scheduled.
\<close>

definition trigger_put :: "resource \<Rightarrow> resource \<times> nat option" where
  "trigger_put r =
     (case put_queue r of
        [] \<Rightarrow> (r, None)
      | p # ps \<Rightarrow>
          if int (length (users r)) < capacity r
          then (r\<lparr>users := users r @ [p], put_queue := ps\<rparr>, Some p)
          else (r, None))"

definition berths_trigger_put :: "sim_state \<Rightarrow> sim_state" where
  "berths_trigger_put st =
     (case trigger_put (berths st) of
        (r, None) \<Rightarrow> st\<lparr>berths := r\<rparr>
      | (r, Some p) \<Rightarrow> schedule (Berth_request p) NORMAL 0 (st\<lparr>berths := r\<rparr>))"

definition cranes_trigger_put :: "sim_state \<Rightarrow> sim_state" where
  "cranes_trigger_put st =
     (case trigger_put (cranes st) of
        (r, None) \<Rightarrow> st\<lparr>cranes := r\<rparr>
      | (r, Some p) \<Rightarrow> schedule (Crane_request p) NORMAL 0 (st\<lparr>cranes := r\<rparr>))"

definition berths_request :: "nat \<Rightarrow> sim_state \<Rightarrow> sim_state" where
  "berths_request p st =
     berths_trigger_put (st\<lparr>berths := (berths st)\<lparr>put_queue := put_queue (berths st) @ [p]\<rparr>\<rparr>)"

definition cranes_request :: "nat \<Rightarrow> sim_state \<Rightarrow> sim_state" where
  "cranes_request p st =
     cranes_trigger_put (st\<lparr>cranes := (cranes st)\<lparr>put_queue := put_queue (cranes st) @ [p]\<rparr>\<rparr>)"

text \<open>
  \<open>release\<close> removes the request from the users at once and schedules the release event,
  whose callback is \<open>_trigger_put\<close>.
\<close>

definition cranes_release :: "nat \<Rightarrow> sim_state \<Rightarrow> sim_state" where
  "cranes_release p st =
     schedule (Release_crane p) NORMAL 0
       (st\<lparr>cranes := (cranes st)\<lparr>users := remove1 p (users (cranes st))\<rparr>,
           history := history st @ [Crane_released p]\<rparr>)"

definition berths_release :: "nat \<Rightarrow> sim_state \<Rightarrow> sim_state" where
  "berths_release p st =
     schedule (Release_berth p) NORMAL 0
       (st\<lparr>berths := (berths st)\<lparr>users := remove1 p (users (berths st))\<rparr>,
           history := history st @ [Berth_released p]\<rparr>)"

section \<open>The processes\<close>

definition frame_at :: "sim_state \<Rightarrow> nat \<Rightarrow> ship_frame option" where
  "frame_at st p = (if p < length (ships st) then Some (ships st ! p) else None)"

definition set_frame :: "nat \<Rightarrow> ship_frame \<Rightarrow> sim_state \<Rightarrow> sim_state" where
  "set_frame p f st = st\<lparr>ships := (ships st)[p := f]\<rparr>"

definition log :: "action \<Rightarrow> sim_state \<Rightarrow> sim_state" where
  "log a st = st\<lparr>history := history st @ [a]\<rparr>"

text \<open>
  \<open>arrival_process\<close>, from one iteration of its loop to the next suspension: the timeout
  for the next row, a failed process when the delay is negative, the end of the generator
  when no row is left.
\<close>

definition arrival_next :: "sim_state \<Rightarrow> sim_state" where
  "arrival_next st =
     (case rows st of
        [] \<Rightarrow> schedule Driver_done NORMAL 0 (st\<lparr>pending := None\<rparr>)
      | r # rs \<Rightarrow>
          let delay = row_arrival_time_minutes r - now st in
          if delay < 0
          then schedule (Driver_failed (Negative_delay delay)) NORMAL 0 (st\<lparr>pending := None\<rparr>)
          else schedule Arrival_timeout NORMAL delay (st\<lparr>rows := rs, pending := Some r\<rparr>))"

definition spawn_ship :: "arrival_row \<Rightarrow> sim_state \<Rightarrow> sim_state" where
  "spawn_ship r st =
     schedule (Init_ship (length (ships st))) URGENT 0
       (st\<lparr>ships := ships st @ [Not_started (row_ship_id r) (row_cargo_containers r)]\<rparr>)"

definition emit :: "ship_data \<Rightarrow> sim_state \<Rightarrow> sim_state" where
  "emit d st = st\<lparr>results_data := results_data st @ [d]\<rparr>"

text \<open>
  \<open>ship_process\<close>, one resumption at a time. The last two resumptions leave the two
  \<open>with\<close> blocks, the inner one (the crane) first.
\<close>

definition ship_start :: "nat \<Rightarrow> sim_state \<Rightarrow> sim_state" where
  "ship_start p st =
     (case frame_at st p of
        Some (Not_started name cargo) \<Rightarrow>
          berths_request p (log (Arrived p) (set_frame p (At_berth_request name cargo (now st)) st))
      | _ \<Rightarrow> st)"

definition ship_docked :: "nat \<Rightarrow> sim_state \<Rightarrow> sim_state" where
  "ship_docked p st =
     (case frame_at st p of
        Some (At_berth_request name cargo arrived) \<Rightarrow>
          cranes_request p
            (log (Docked p) (set_frame p (At_crane_request name cargo arrived (now st)) st))
      | _ \<Rightarrow> st)"

definition ship_crane_secured :: "int \<Rightarrow> nat \<Rightarrow> sim_state \<Rightarrow> sim_state" where
  "ship_crane_secured unload_time p st =
     (case frame_at st p of
        Some (At_crane_request name cargo arrived docked) \<Rightarrow>
          let unloading_duration = cargo * unload_time;
              st1 = log (Secured_crane p) st
          in if unloading_duration < 0
             then schedule (Ship_failed p (Negative_delay unloading_duration)) NORMAL 0
                    (berths_release p (cranes_release p (set_frame p Raised st1)))
             else schedule (Unload_timeout p) NORMAL unloading_duration
                    (set_frame p (At_unload_timeout name cargo arrived docked (now st)) st1)
      | _ \<Rightarrow> st)"

definition ship_unloaded :: "nat \<Rightarrow> sim_state \<Rightarrow> sim_state" where
  "ship_unloaded p st =
     (case frame_at st p of
        Some (At_unload_timeout name cargo arrived docked secured) \<Rightarrow>
          let t_done = now st;
              st1 = cranes_release p (log (Finished_unloading p) st);
              st2 = berths_release p st1;
              st3 = emit \<lparr>ship_id = name, cargo_containers = cargo, time_arrived_port = arrived,
                          time_docked = docked, time_crane_secured = secured,
                          time_unloading_complete = t_done, time_departed_port = now st2\<rparr>
                      (log (Departed p) st2)
          in schedule (Ship_done p) NORMAL 0 (set_frame p Returned st3)
      | _ \<Rightarrow> st)"

section \<open>The scheduler\<close>

text \<open>
  The callbacks of each event. A failed process event raises in \<open>step\<close>; the \<open>Until\<close>
  event stops the run.
\<close>

fun dispatch :: "int \<Rightarrow> event \<Rightarrow> sim_state \<Rightarrow> status \<times> sim_state" where
  "dispatch ut Init_driver st = (Continue, arrival_next st)"
| "dispatch ut Arrival_timeout st =
     (case pending st of
        None \<Rightarrow> (Continue, st)
      | Some r \<Rightarrow> (Continue, arrival_next (spawn_ship r st)))"
| "dispatch ut Driver_done st = (Continue, st)"
| "dispatch ut (Driver_failed e) st = (Crash e, st)"
| "dispatch ut (Init_ship p) st = (Continue, ship_start p st)"
| "dispatch ut (Berth_request p) st = (Continue, ship_docked p st)"
| "dispatch ut (Crane_request p) st = (Continue, ship_crane_secured ut p st)"
| "dispatch ut (Unload_timeout p) st = (Continue, ship_unloaded p st)"
| "dispatch ut (Release_crane p) st = (Continue, cranes_trigger_put st)"
| "dispatch ut (Release_berth p) st = (Continue, berths_trigger_put st)"
| "dispatch ut (Ship_done p) st = (Continue, st)"
| "dispatch ut (Ship_failed p e) st = (Crash e, st)"
| "dispatch ut Until st = (Stop, st)"

definition step :: "int \<Rightarrow> sim_state \<Rightarrow> status \<times> sim_state" where
  "step ut st =
     (case queue st of
        [] \<Rightarrow> (Crash Empty_schedule, st)
      | e # q \<Rightarrow> dispatch ut (ev e) (st\<lparr>now := etime e, queue := q\<rparr>))"

text \<open>A bound on the events still to come, which every step lowers.\<close>

fun weight :: "nat \<Rightarrow> event \<Rightarrow> nat" where
  "weight n Init_driver = 8 * n + 2"
| "weight n Arrival_timeout = 8 * n + 9"
| "weight n (Init_ship p) = 7"
| "weight n (Berth_request p) = 6"
| "weight n (Crane_request p) = 5"
| "weight n (Unload_timeout p) = 4"
| "weight n e = 1"

definition potential :: "sim_state \<Rightarrow> nat" where
  "potential st =
     sum_list (map (\<lambda>e. weight (length (rows st)) (ev e)) (queue st))
     + 6 * length (put_queue (berths st)) + 5 * length (put_queue (cranes st))"

lemma sum_list_heappush:
  "sum_list (map f (heappush x q)) = (f x :: nat) + sum_list (map f q)"
  by (induction q) auto

lemma potential_schedule:
  "potential (schedule e p d st) = potential st + weight (length (rows st)) e"
  by (simp add: potential_def schedule_def sum_list_heappush)

lemma weight_mono: "m \<le> n \<Longrightarrow> weight m e \<le> weight n e"
  by (cases e) auto

lemma sum_weight_mono:
  "m \<le> n \<Longrightarrow> sum_list (map (\<lambda>e. weight m (ev e)) q) \<le> sum_list (map (\<lambda>e. weight n (ev e)) q)"
  by (induction q) (auto intro: add_mono weight_mono)

lemma potential_log [simp]: "potential (log a st) = potential st"
  by (simp add: potential_def log_def)

lemma potential_set_frame [simp]: "potential (set_frame p f st) = potential st"
  by (simp add: potential_def set_frame_def)

lemma potential_emit [simp]: "potential (emit d st) = potential st"
  by (simp add: potential_def emit_def)

lemma potential_berths_trigger_put [simp]: "potential (berths_trigger_put st) = potential st"
  by (auto simp: berths_trigger_put_def trigger_put_def potential_schedule
           split: list.splits prod.splits option.splits)
     (auto simp: potential_def)

lemma potential_cranes_trigger_put [simp]: "potential (cranes_trigger_put st) = potential st"
  by (auto simp: cranes_trigger_put_def trigger_put_def potential_schedule
           split: list.splits prod.splits option.splits)
     (auto simp: potential_def)

lemma potential_berths_request [simp]: "potential (berths_request p st) = potential st + 6"
  by (simp add: berths_request_def) (simp add: potential_def)

lemma potential_cranes_request [simp]: "potential (cranes_request p st) = potential st + 5"
  by (simp add: cranes_request_def) (simp add: potential_def)

lemma potential_cranes_release [simp]: "potential (cranes_release p st) = potential st + 1"
  by (simp add: cranes_release_def potential_schedule) (simp add: potential_def)

lemma potential_berths_release [simp]: "potential (berths_release p st) = potential st + 1"
  by (simp add: berths_release_def potential_schedule) (simp add: potential_def)

lemma potential_spawn_ship [simp]: "potential (spawn_ship r st) = potential st + 7"
  by (simp add: spawn_ship_def potential_schedule) (simp add: potential_def)

lemma potential_arrival_next:
  "potential (arrival_next st) \<le> potential st + 8 * length (rows st) + 1"
proof (cases "rows st")
  case Nil
  then show ?thesis
    by (simp add: arrival_next_def potential_schedule) (simp add: potential_def)
next
  case (Cons r rs)
  have "sum_list (map (\<lambda>e. weight (length rs) (ev e)) (queue st))
        \<le> sum_list (map (\<lambda>e. weight (Suc (length rs)) (ev e)) (queue st))"
    by (rule sum_weight_mono) simp
  with Cons show ?thesis
    by (simp add: arrival_next_def Let_def potential_schedule) (simp add: potential_def)
qed

lemma potential_ship_start: "potential (ship_start p st) \<le> potential st + 6"
  by (simp add: ship_start_def split: option.splits ship_frame.splits)

lemma potential_ship_docked: "potential (ship_docked p st) \<le> potential st + 5"
  by (simp add: ship_docked_def split: option.splits ship_frame.splits)

lemma potential_ship_crane_secured: "potential (ship_crane_secured ut p st) \<le> potential st + 4"
  by (simp add: ship_crane_secured_def Let_def potential_schedule
           split: option.splits ship_frame.splits)

lemma potential_ship_unloaded: "potential (ship_unloaded p st) \<le> potential st + 3"
  by (simp add: ship_unloaded_def Let_def potential_schedule
           split: option.splits ship_frame.splits)

lemma potential_pop:
  "queue st = e # q \<Longrightarrow>
   potential (st\<lparr>now := t, queue := q\<rparr>) + weight (length (rows st)) (ev e) = potential st"
  by (simp add: potential_def)

lemma dispatch_potential:
  "dispatch ut e st = (Continue, st') \<Longrightarrow> potential st' < potential st + weight (length (rows st)) e"
proof (cases e)
  case Init_driver
  assume "dispatch ut e st = (Continue, st')"
  with Init_driver potential_arrival_next [of st] show ?thesis by auto
next
  case Arrival_timeout
  assume d: "dispatch ut e st = (Continue, st')"
  show ?thesis
  proof (cases "pending st")
    case None
    with d Arrival_timeout show ?thesis by auto
  next
    case (Some r)
    have "rows (spawn_ship r st) = rows st" by (simp add: spawn_ship_def schedule_def)
    with d Arrival_timeout Some potential_arrival_next [of "spawn_ship r st"]
    show ?thesis by auto
  qed
next
  case (Init_ship p)
  assume "dispatch ut e st = (Continue, st')"
  with Init_ship potential_ship_start [of p st] show ?thesis by auto
next
  case (Berth_request p)
  assume "dispatch ut e st = (Continue, st')"
  with Berth_request potential_ship_docked [of p st] show ?thesis by auto
next
  case (Crane_request p)
  assume "dispatch ut e st = (Continue, st')"
  with Crane_request potential_ship_crane_secured [of ut p st] show ?thesis by auto
next
  case (Unload_timeout p)
  assume "dispatch ut e st = (Continue, st')"
  with Unload_timeout potential_ship_unloaded [of p st] show ?thesis by auto
qed auto

lemma step_potential: "step ut st = (Continue, st') \<Longrightarrow> potential st' < potential st"
proof -
  assume s: "step ut st = (Continue, st')"
  then obtain e q where q: "queue st = e # q"
    by (cases "queue st") (auto simp: step_def)
  with s have "dispatch ut (ev e) (st\<lparr>now := etime e, queue := q\<rparr>) = (Continue, st')"
    by (simp add: step_def)
  from dispatch_potential [OF this] potential_pop [OF q, of "etime e"] show ?thesis
    by simp
qed

text \<open>
  \<open>env.run\<close>: step until the \<open>Until\<close> event stops the run or an event raises. The
  result is the exception, if any, and the state left behind.
\<close>

function run_loop :: "int \<Rightarrow> sim_state \<Rightarrow> error option \<times> sim_state" where
  "run_loop ut st =
     (case step ut st of
        (Continue, st') \<Rightarrow> run_loop ut st'
      | (Stop, st') \<Rightarrow> (None, st')
      | (Crash e, st') \<Rightarrow> (Some e, st'))"
  by pat_completeness auto
termination
  by (relation "measure (\<lambda>(ut, st). potential st)") (auto intro: step_potential [OF sym])

declare run_loop.simps [simp del]

text \<open>
  \<open>arrivals_df['arrival_time_minutes'].max()\<close>: the greatest value of the column, and NaN
  (here \<open>None\<close>) for a table without rows.
\<close>

definition column_max :: "int list \<Rightarrow> int option" where
  "column_max xs = (case xs of [] \<Rightarrow> None | x # ys \<Rightarrow> Some (fold max ys x))"

definition simulation_runtime :: "arrival_row list \<Rightarrow> int option" where
  "simulation_runtime arrivals =
     map_option (\<lambda>m. m + 20000) (column_max (map row_arrival_time_minutes arrivals))"

text \<open>
  \<open>env.run(until=at)\<close>. For a number, \<open>at \<le> now\<close> raises; otherwise the \<open>Until\<close> event is
  scheduled urgently at \<open>at\<close> and the loop runs. For NaN the test \<open>at \<le> now\<close> is false and
  so is every comparison of the heap with the new entry: pushed onto the one entry that is
  queued when \<open>run\<close> is called, it stays behind it, and no entry pushed later gets in front of
  it. So the queued entry is processed, and the \<open>Until\<close> event next.
\<close>

definition env_run :: "int \<Rightarrow> int option \<Rightarrow> sim_state \<Rightarrow> error option \<times> sim_state" where
  "env_run ut until st =
     (case until of
        None \<Rightarrow>
          (case step ut st of
             (Crash e, st') \<Rightarrow> (Some e, st')
           | (_, st') \<Rightarrow> (None, st'))
      | Some at \<Rightarrow>
          if at \<le> now st then (Some Bad_until, st)
          else run_loop ut (schedule Until URGENT (at - now st) st))"

section \<open>The simulation run\<close>

definition clear :: "'a list \<Rightarrow> 'a list" where
  "clear xs = []"

definition new_resource :: "int \<Rightarrow> resource" where
  "new_resource n = \<lparr>capacity = n, users = [], put_queue = []\<rparr>"

definition new_environment ::
  "int \<Rightarrow> int \<Rightarrow> arrival_row list \<Rightarrow> ship_data list \<Rightarrow> sim_state" where
  "new_environment num_berths num_cranes arrivals results =
     \<lparr>now = 0, queue = [], next_eid = 0,
      berths = new_resource num_berths, cranes = new_resource num_cranes,
      rows = arrivals, pending = None, ships = [],
      results_data = results, history = []\<rparr>"

text \<open>
  \<open>run_simulation\<close> on the table read from the input file, started with the global
  \<open>results_data\<close> of the caller: the list is cleared, the port is built (a capacity that is
  not positive raises), the arrival process is started and the environment runs to the
  horizon. \<open>run_state\<close> gives the exception, if any, and the final state.
\<close>

definition run_state ::
  "int \<Rightarrow> int \<Rightarrow> int \<Rightarrow> arrival_row list \<Rightarrow> ship_data list \<Rightarrow> error option \<times> sim_state" where
  "run_state num_berths num_cranes unload_time arrivals results =
     (let st0 = new_environment num_berths num_cranes arrivals (clear results) in
      if num_berths \<le> 0 \<or> num_cranes \<le> 0 then (Some Bad_capacity, st0)
      else env_run unload_time (simulation_runtime arrivals) (schedule Init_driver URGENT 0 st0))"

definition run_simulation ::
  "int \<Rightarrow> int \<Rightarrow> int \<Rightarrow> arrival_row list \<Rightarrow> ship_data list \<Rightarrow> error option \<times> ship_data list" where
  "run_simulation num_berths num_cranes unload_time arrivals results =
     map_prod id results_data (run_state num_berths num_cranes unload_time arrivals results)"

text \<open>
  \<open>calculate_and_save_results\<close>: no file for an empty list, otherwise one line for each
  ship with the three derived columns.
\<close>

record kpi_row =
  kpi_ship_id :: int
  wait_time_for_berth :: int
  wait_time_for_crane :: int
  turnaround_time :: int

definition kpis :: "ship_data \<Rightarrow> kpi_row" where
  "kpis d =
     \<lparr>kpi_ship_id = ship_id d,
      wait_time_for_berth = time_docked d - time_arrived_port d,
      wait_time_for_crane = time_crane_secured d - time_docked d,
      turnaround_time = time_departed_port d - time_arrived_port d\<rparr>"

definition calculate_and_save_results :: "ship_data list \<Rightarrow> kpi_row list option" where
  "calculate_and_save_results results =
     (if results = [] then None else Some (map kpis results))"

definition arrival :: "int \<Rightarrow> int \<Rightarrow> int \<Rightarrow> arrival_row" where
  "arrival i t c = \<lparr>row_ship_id = i, row_arrival_time_minutes = t, row_cargo_containers = c\<rparr>"

section \<open>Invariants of a run\<close>

lemma set_heappush [simp]: "set (heappush x q) = insert x (set q)"
  by (induction q) auto

lemma sorted_heappush:
  "sorted (map etime q) \<Longrightarrow> sorted (map etime (heappush x q))"
  by (induction q) (auto simp: before_def)

lemma schedule_fields [simp]:
  "now (schedule e p d st) = now st"
  "queue (schedule e p d st) =
     heappush \<lparr>etime = now st + d, eprio = p, eid = next_eid st, ev = e\<rparr> (queue st)"
  "next_eid (schedule e p d st) = Suc (next_eid st)"
  "berths (schedule e p d st) = berths st"
  "cranes (schedule e p d st) = cranes st"
  "rows (schedule e p d st) = rows st"
  "pending (schedule e p d st) = pending st"
  "ships (schedule e p d st) = ships st"
  "results_data (schedule e p d st) = results_data st"
  "history (schedule e p d st) = history st"
  by (simp_all add: schedule_def)

lemmas resource_defs =
  berths_trigger_put_def cranes_trigger_put_def trigger_put_def
  berths_request_def cranes_request_def cranes_release_def berths_release_def

lemmas process_defs =
  arrival_next_def spawn_ship_def ship_start_def ship_docked_def ship_crane_secured_def
  ship_unloaded_def set_frame_def log_def emit_def frame_at_def

definition clock_ok :: "sim_state \<Rightarrow> bool" where
  "clock_ok st \<longleftrightarrow>
     sorted (map etime (queue st)) \<and> (\<forall>e \<in> set (queue st). now st \<le> etime e)"

lemma clock_ok_dispatch:
  "clock_ok st \<Longrightarrow> dispatch ut e st = (x, st') \<Longrightarrow> clock_ok st' \<and> now st' = now st"
  by (cases e)
     (auto simp: clock_ok_def resource_defs process_defs Let_def sorted_heappush
           split: option.splits list.splits ship_frame.splits prod.splits if_splits)

lemma clock_ok_step:
  "clock_ok st \<Longrightarrow> step ut st = (x, st') \<Longrightarrow> clock_ok st' \<and> now st \<le> now st'"
proof (cases "queue st")
  case Nil
  assume "clock_ok st" "step ut st = (x, st')"
  with Nil show ?thesis by (simp add: step_def)
next
  case (Cons e q)
  assume c: "clock_ok st" and s: "step ut st = (x, st')"
  from c Cons have "clock_ok (st\<lparr>now := etime e, queue := q\<rparr>)" and "now st \<le> etime e"
    by (auto simp: clock_ok_def)
  with s Cons clock_ok_dispatch [of "st\<lparr>now := etime e, queue := q\<rparr>" ut "ev e" x st']
  show ?thesis by (simp add: step_def)
qed

lemma run_loop_rule:
  assumes "I st"
    and "\<And>s s'. I s \<Longrightarrow> step ut s = (Continue, s') \<Longrightarrow> I s'"
    and "\<And>s s'. I s \<Longrightarrow> step ut s = (Stop, s') \<Longrightarrow> Q (None, s')"
    and "\<And>s s' e. I s \<Longrightarrow> step ut s = (Crash e, s') \<Longrightarrow> Q (Some e, s')"
  shows "Q (run_loop ut st)"
  using assms(1)
proof (induction "potential st" arbitrary: st rule: less_induct)
  case less
  obtain x s' where s: "step ut st = (x, s')" by (cases "step ut st")
  show ?case
  proof (cases x)
    case Continue
    with s have "potential s' < potential st" by (simp add: step_potential)
    moreover from Continue s less.prems have "I s'" by (simp add: assms(2))
    ultimately have "Q (run_loop ut s')" by (rule less.hyps)
    with Continue s show ?thesis by (simp add: run_loop.simps [of ut st])
  next
    case Stop
    with s less.prems show ?thesis by (simp add: run_loop.simps [of ut st] assms(3))
  next
    case (Crash e)
    with s less.prems show ?thesis by (simp add: run_loop.simps [of ut st] assms(4))
  qed
qed

lemma trigger_put_fields [simp]:
  "now (berths_trigger_put st) = now st"
  "rows (berths_trigger_put st) = rows st"
  "pending (berths_trigger_put st) = pending st"
  "ships (berths_trigger_put st) = ships st"
  "results_data (berths_trigger_put st) = results_data st"
  "history (berths_trigger_put st) = history st"
  "cranes (berths_trigger_put st) = cranes st"
  "now (cranes_trigger_put st) = now st"
  "rows (cranes_trigger_put st) = rows st"
  "pending (cranes_trigger_put st) = pending st"
  "ships (cranes_trigger_put st) = ships st"
  "results_data (cranes_trigger_put st) = results_data st"
  "history (cranes_trigger_put st) = history st"
  "berths (cranes_trigger_put st) = berths st"
  by (simp_all add: berths_trigger_put_def cranes_trigger_put_def
        split: prod.splits option.splits)

lemma request_fields [simp]:
  "now (berths_request p st) = now st"
  "rows (berths_request p st) = rows st"
  "pending (berths_request p st) = pending st"
  "ships (berths_request p st) = ships st"
  "results_data (berths_request p st) = results_data st"
  "history (berths_request p st) = history st"
  "cranes (berths_request p st) = cranes st"
  "now (cranes_request p st) = now st"
  "rows (cranes_request p st) = rows st"
  "pending (cranes_request p st) = pending st"
  "ships (cranes_request p st) = ships st"
  "results_data (cranes_request p st) = results_data st"
  "history (cranes_request p st) = history st"
  "berths (cranes_request p st) = berths st"
  by (simp_all add: berths_request_def cranes_request_def)

lemma release_fields [simp]:
  "now (berths_release p st) = now st"
  "rows (berths_release p st) = rows st"
  "pending (berths_release p st) = pending st"
  "ships (berths_release p st) = ships st"
  "results_data (berths_release p st) = results_data st"
  "history (berths_release p st) = history st @ [Berth_released p]"
  "cranes (berths_release p st) = cranes st"
  "now (cranes_release p st) = now st"
  "rows (cranes_release p st) = rows st"
  "pending (cranes_release p st) = pending st"
  "ships (cranes_release p st) = ships st"
  "results_data (cranes_release p st) = results_data st"
  "history (cranes_release p st) = history st @ [Crane_released p]"
  "berths (cranes_release p st) = berths st"
  by (simp_all add: berths_release_def cranes_release_def)

lemmas frame_defs = set_frame_def log_def emit_def

lemma frame_at_mem: "frame_at st p = Some f \<Longrightarrow> f \<in> set (ships st)"
  by (auto simp: frame_at_def split: if_splits)

lemma in_set_update: "x \<in> set (xs[i := y]) \<Longrightarrow> x = y \<or> x \<in> set xs"
  using set_update_subset_insert [of xs i y] by auto

definition frame_ok :: "int \<Rightarrow> ship_frame \<Rightarrow> bool" where
  "frame_ok t f =
     (case f of
        At_berth_request n c a \<Rightarrow> a \<le> t
      | At_crane_request n c a d \<Rightarrow> a \<le> d \<and> d \<le> t
      | At_unload_timeout n c a d s \<Rightarrow> a \<le> d \<and> d \<le> s \<and> s \<le> t
      | _ \<Rightarrow> True)"

definition record_ok :: "ship_data \<Rightarrow> bool" where
  "record_ok d \<longleftrightarrow>
     time_arrived_port d \<le> time_docked d \<and> time_docked d \<le> time_crane_secured d \<and>
     time_crane_secured d \<le> time_unloading_complete d \<and>
     time_unloading_complete d \<le> time_departed_port d \<and>
     time_departed_port d = time_unloading_complete d"

definition stamps_ok :: "sim_state \<Rightarrow> bool" where
  "stamps_ok st \<longleftrightarrow>
     (\<forall>f \<in> set (ships st). frame_ok (now st) f) \<and> (\<forall>d \<in> set (results_data st). record_ok d)"

lemma frame_ok_mono: "frame_ok t f \<Longrightarrow> t \<le> t' \<Longrightarrow> frame_ok t' f"
  by (auto simp: frame_ok_def split: ship_frame.splits)

lemma stamps_ok_arrival_next: "stamps_ok st \<Longrightarrow> stamps_ok (arrival_next st)"
  by (simp add: stamps_ok_def arrival_next_def Let_def split: list.splits)

lemma stamps_ok_spawn_ship: "stamps_ok st \<Longrightarrow> stamps_ok (spawn_ship r st)"
  by (simp add: stamps_ok_def spawn_ship_def frame_ok_def)

lemma stamps_ok_ship_start: "stamps_ok st \<Longrightarrow> stamps_ok (ship_start p st)"
  by (auto simp: stamps_ok_def ship_start_def frame_defs
           dest!: in_set_update split: option.splits ship_frame.splits)
     (auto simp: frame_ok_def)

lemma stamps_ok_ship_docked: "stamps_ok st \<Longrightarrow> stamps_ok (ship_docked p st)"
proof (cases "frame_at st p")
  case None
  assume "stamps_ok st"
  with None show ?thesis by (simp add: ship_docked_def)
next
  case (Some f)
  assume i: "stamps_ok st"
  with frame_at_mem [OF Some] have "frame_ok (now st) f" by (simp add: stamps_ok_def)
  with i Some show ?thesis
    by (cases f)
       (auto simp: stamps_ok_def ship_docked_def frame_defs dest!: in_set_update,
        auto simp: frame_ok_def)
qed

lemma stamps_ok_ship_crane_secured: "stamps_ok st \<Longrightarrow> stamps_ok (ship_crane_secured ut p st)"
proof (cases "frame_at st p")
  case None
  assume "stamps_ok st"
  with None show ?thesis by (simp add: ship_crane_secured_def)
next
  case (Some f)
  assume i: "stamps_ok st"
  with frame_at_mem [OF Some] have "frame_ok (now st) f" by (simp add: stamps_ok_def)
  with i Some show ?thesis
    by (cases f)
       (auto simp: stamps_ok_def ship_crane_secured_def frame_defs Let_def
             dest!: in_set_update,
        auto simp: frame_ok_def)
qed

lemma stamps_ok_ship_unloaded: "stamps_ok st \<Longrightarrow> stamps_ok (ship_unloaded p st)"
proof (cases "frame_at st p")
  case None
  assume "stamps_ok st"
  with None show ?thesis by (simp add: ship_unloaded_def)
next
  case (Some f)
  assume i: "stamps_ok st"
  with frame_at_mem [OF Some] have "frame_ok (now st) f" by (simp add: stamps_ok_def)
  with i Some show ?thesis
    by (cases f)
       (auto simp: stamps_ok_def ship_unloaded_def frame_defs Let_def
             dest!: in_set_update,
        auto simp: frame_ok_def record_ok_def)
qed

lemma stamps_ok_dispatch:
  "stamps_ok st \<Longrightarrow> dispatch ut e st = (x, st') \<Longrightarrow> stamps_ok st'"
  by (cases e)
     (auto simp: stamps_ok_arrival_next stamps_ok_spawn_ship stamps_ok_ship_start
        stamps_ok_ship_docked stamps_ok_ship_crane_secured stamps_ok_ship_unloaded
        split: option.splits,
      auto simp: stamps_ok_def)

lemma stamps_ok_step:
  "clock_ok st \<Longrightarrow> stamps_ok st \<Longrightarrow> step ut st = (x, st') \<Longrightarrow> stamps_ok st'"
proof (cases "queue st")
  case Nil
  assume "stamps_ok st" "step ut st = (x, st')"
  with Nil show ?thesis by (simp add: step_def)
next
  case (Cons e q)
  assume c: "clock_ok st" and i: "stamps_ok st" and s: "step ut st = (x, st')"
  from c Cons have "now st \<le> etime e" by (simp add: clock_ok_def)
  with i have "stamps_ok (st\<lparr>now := etime e, queue := q\<rparr>)"
    by (auto simp: stamps_ok_def intro: frame_ok_mono)
  with s Cons show ?thesis by (auto simp: step_def intro: stamps_ok_dispatch)
qed

lemma queue_trigger_put:
  "e \<in> set (queue (berths_trigger_put st)) \<Longrightarrow>
     e \<in> set (queue st) \<or> (\<exists>p. ev e = Berth_request p) \<and> etime e = now st"
  "e \<in> set (queue (cranes_trigger_put st)) \<Longrightarrow>
     e \<in> set (queue st) \<or> (\<exists>p. ev e = Crane_request p) \<and> etime e = now st"
  by (auto simp: berths_trigger_put_def cranes_trigger_put_def split: prod.splits option.splits)

lemma queue_request:
  "e \<in> set (queue (berths_request p st)) \<Longrightarrow>
     e \<in> set (queue st) \<or> (\<exists>p. ev e = Berth_request p) \<and> etime e = now st"
  "e \<in> set (queue (cranes_request p st)) \<Longrightarrow>
     e \<in> set (queue st) \<or> (\<exists>p. ev e = Crane_request p) \<and> etime e = now st"
  by (auto simp: berths_request_def cranes_request_def dest!: queue_trigger_put)

lemma queue_release:
  "e \<in> set (queue (berths_release p st)) \<Longrightarrow>
     e \<in> set (queue st) \<or> ev e = Release_berth p \<and> etime e = now st"
  "e \<in> set (queue (cranes_release p st)) \<Longrightarrow>
     e \<in> set (queue st) \<or> ev e = Release_crane p \<and> etime e = now st"
  by (auto simp: berths_release_def cranes_release_def)

lemma queue_frame [simp]:
  "queue (set_frame p f st) = queue st"
  "queue (log a st) = queue st"
  "queue (emit d st) = queue st"
  by (simp_all add: frame_defs)

lemma spawn_ship_fields [simp]:
  "now (spawn_ship r st) = now st"
  "rows (spawn_ship r st) = rows st"
  "pending (spawn_ship r st) = pending st"
  "ships (spawn_ship r st) = ships st @ [Not_started (row_ship_id r) (row_cargo_containers r)]"
  "results_data (spawn_ship r st) = results_data st"
  "history (spawn_ship r st) = history st"
  "berths (spawn_ship r st) = berths st"
  "cranes (spawn_ship r st) = cranes st"
  by (simp_all add: spawn_ship_def)

lemma arrival_next_fields [simp]:
  "now (arrival_next st) = now st"
  "ships (arrival_next st) = ships st"
  "results_data (arrival_next st) = results_data st"
  "history (arrival_next st) = history st"
  "berths (arrival_next st) = berths st"
  "cranes (arrival_next st) = cranes st"
  by (simp_all add: arrival_next_def Let_def split: list.splits)

lemma ship_fields [simp]:
  "now (ship_start p st) = now st"
  "rows (ship_start p st) = rows st"
  "pending (ship_start p st) = pending st"
  "results_data (ship_start p st) = results_data st"
  "now (ship_docked p st) = now st"
  "rows (ship_docked p st) = rows st"
  "pending (ship_docked p st) = pending st"
  "results_data (ship_docked p st) = results_data st"
  "now (ship_crane_secured ut p st) = now st"
  "rows (ship_crane_secured ut p st) = rows st"
  "pending (ship_crane_secured ut p st) = pending st"
  "results_data (ship_crane_secured ut p st) = results_data st"
  "now (ship_unloaded p st) = now st"
  "rows (ship_unloaded p st) = rows st"
  "pending (ship_unloaded p st) = pending st"
  by (simp_all add: ship_start_def ship_docked_def ship_crane_secured_def ship_unloaded_def
        frame_defs Let_def split: option.splits ship_frame.splits)

lemma queue_arrival_next:
  "e \<in> set (queue (arrival_next st)) \<Longrightarrow>
     e \<in> set (queue st) \<or>
     (ev e = Driver_done \<or> (\<exists>x. ev e = Driver_failed x) \<or> ev e = Arrival_timeout)
       \<and> now st \<le> etime e"
  by (auto simp: arrival_next_def Let_def split: list.splits if_splits)

lemma queue_spawn_ship:
  "e \<in> set (queue (spawn_ship r st)) \<Longrightarrow>
     e \<in> set (queue st) \<or> ev e = Init_ship (length (ships st)) \<and> etime e = now st"
  by (auto simp: spawn_ship_def)

lemma queue_ship_start:
  "e \<in> set (queue (ship_start p st)) \<Longrightarrow>
     e \<in> set (queue st) \<or> (\<exists>q. ev e = Berth_request q) \<and> etime e = now st"
  by (auto simp: ship_start_def frame_defs dest!: queue_request
           split: option.splits ship_frame.splits)

lemma queue_ship_docked:
  "e \<in> set (queue (ship_docked p st)) \<Longrightarrow>
     e \<in> set (queue st) \<or> (\<exists>q. ev e = Crane_request q) \<and> etime e = now st"
  by (auto simp: ship_docked_def frame_defs dest!: queue_request
           split: option.splits ship_frame.splits)

lemma queue_ship_crane_secured:
  "e \<in> set (queue (ship_crane_secured ut p st)) \<Longrightarrow>
     e \<in> set (queue st) \<or>
     (ev e = Release_crane p \<or> ev e = Release_berth p \<or> (\<exists>x. ev e = Ship_failed p x))
       \<and> etime e = now st \<or>
     (\<exists>n c a d. frame_at st p = Some (At_crane_request n c a d) \<and> 0 \<le> c * ut \<and>
        ev e = Unload_timeout p \<and> etime e = now st + c * ut)"
  by (auto simp: ship_crane_secured_def frame_defs Let_def dest!: queue_release
           split: option.splits ship_frame.splits if_splits)

lemma queue_ship_unloaded:
  "e \<in> set (queue (ship_unloaded p st)) \<Longrightarrow>
     e \<in> set (queue st) \<or>
     (ev e = Release_crane p \<or> ev e = Release_berth p \<or> ev e = Ship_done p)
       \<and> etime e = now st"
  by (auto simp: ship_unloaded_def frame_defs Let_def dest!: queue_release
           split: option.splits ship_frame.splits if_splits)

lemma queue_dispatch:
  "dispatch ut e st = (x, st') \<Longrightarrow> y \<in> set (queue st') \<Longrightarrow>
     y \<in> set (queue st) \<or> ev y \<noteq> Until \<and> now st \<le> etime y"
  by (cases e)
     (auto dest!: queue_arrival_next queue_spawn_ship queue_ship_start queue_ship_docked
          queue_ship_crane_secured queue_ship_unloaded queue_trigger_put
        split: option.splits)

definition until_ok :: "int \<Rightarrow> sim_state \<Rightarrow> bool" where
  "until_ok h st \<longleftrightarrow> (\<forall>e \<in> set (queue st). ev e = Until \<longrightarrow> etime e = h)"

lemma until_ok_step: "until_ok h st \<Longrightarrow> step ut st = (x, st') \<Longrightarrow> until_ok h st'"
proof (cases "queue st")
  case Nil
  assume "until_ok h st" "step ut st = (x, st')"
  with Nil show ?thesis by (simp add: step_def)
next
  case (Cons e q)
  assume i: "until_ok h st" and s: "step ut st = (x, st')"
  from s Cons have d: "dispatch ut (ev e) (st\<lparr>now := etime e, queue := q\<rparr>) = (x, st')"
    by (simp add: step_def)
  show ?thesis
    unfolding until_ok_def
  proof (intro ballI impI)
    fix y assume "y \<in> set (queue st')" "ev y = Until"
    with queue_dispatch [OF d] have "y \<in> set q" by auto
    with i Cons \<open>ev y = Until\<close> show "etime y = h" by (simp add: until_ok_def)
  qed
qed

text \<open>An unloading timeout in the queue fires at the time its ship computed.\<close>

definition late_ok :: "int \<Rightarrow> ship_frame \<Rightarrow> int \<Rightarrow> bool" where
  "late_ok ut f t =
     (case f of
        At_unload_timeout n c a d s \<Rightarrow> t = s + c * ut
      | Returned \<Rightarrow> True
      | Raised \<Rightarrow> True
      | _ \<Rightarrow> False)"

definition entry_ok :: "int \<Rightarrow> ship_frame list \<Rightarrow> entry \<Rightarrow> bool" where
  "entry_ok ut fs e \<longleftrightarrow>
     (\<forall>p. ev e = Unload_timeout p \<longrightarrow> p < length fs \<and> late_ok ut (fs ! p) (etime e))"

definition unload_frame :: "int \<Rightarrow> ship_frame \<Rightarrow> bool" where
  "unload_frame ut f = (case f of At_unload_timeout n c a d s \<Rightarrow> 0 \<le> c * ut | _ \<Rightarrow> True)"

definition unload_record :: "int \<Rightarrow> ship_data \<Rightarrow> bool" where
  "unload_record ut d \<longleftrightarrow>
     time_unloading_complete d = time_crane_secured d + cargo_containers d * ut \<and>
     0 \<le> cargo_containers d * ut"

definition unload_ok :: "int \<Rightarrow> sim_state \<Rightarrow> bool" where
  "unload_ok ut st \<longleftrightarrow>
     (\<forall>e \<in> set (queue st). entry_ok ut (ships st) e) \<and>
     (\<forall>f \<in> set (ships st). unload_frame ut f) \<and>
     (\<forall>d \<in> set (results_data st). unload_record ut d)"

definition early :: "ship_frame \<Rightarrow> bool" where
  "early f =
     (case f of Not_started n c \<Rightarrow> True | At_berth_request n c a \<Rightarrow> True
      | At_crane_request n c a d \<Rightarrow> True | _ \<Rightarrow> False)"

lemma early_not_late: "early f \<Longrightarrow> \<not> late_ok ut f t"
  by (cases f) (simp_all add: early_def late_ok_def)

lemma late_ok_final [simp]: "late_ok ut Returned t" "late_ok ut Raised t"
  by (simp_all add: late_ok_def)

lemma entry_ok_update:
  "entry_ok ut fs e \<Longrightarrow> early (fs ! p) \<or> f = Returned \<or> f = Raised \<Longrightarrow>
   entry_ok ut (fs[p := f]) e"
  unfolding entry_ok_def
  by (metis early_not_late late_ok_final length_list_update nth_list_update_eq
        nth_list_update_neq)

lemma entry_ok_append: "entry_ok ut fs e \<Longrightarrow> entry_ok ut (fs @ [f]) e"
  by (auto simp: entry_ok_def nth_append)

lemma entry_ok_other: "\<forall>p. ev e \<noteq> Unload_timeout p \<Longrightarrow> entry_ok ut fs e"
  by (simp add: entry_ok_def)


lemma unload_ok_arrival_next: "unload_ok ut st \<Longrightarrow> unload_ok ut (arrival_next st)"
  by (auto simp: unload_ok_def dest!: queue_arrival_next intro: entry_ok_other)

lemma unload_ok_spawn_ship: "unload_ok ut st \<Longrightarrow> unload_ok ut (spawn_ship r st)"
  by (auto simp: unload_ok_def unload_frame_def dest!: queue_spawn_ship
           intro: entry_ok_other entry_ok_append)

lemma unload_ok_trigger_put:
  "unload_ok ut st \<Longrightarrow> unload_ok ut (berths_trigger_put st)"
  "unload_ok ut st \<Longrightarrow> unload_ok ut (cranes_trigger_put st)"
  by (auto simp: unload_ok_def dest!: queue_trigger_put intro: entry_ok_other)

lemma unload_ok_frames:
  assumes "unload_ok ut st" and "results_data st' = results_data st"
    and "\<And>e. e \<in> set (queue st') \<Longrightarrow> e \<in> set (queue st) \<or> (\<forall>p. ev e \<noteq> Unload_timeout p)"
    and "ships st' = (ships st)[p := f]" and "early (ships st ! p)" and "unload_frame ut f"
  shows "unload_ok ut st'"
  unfolding unload_ok_def
proof (intro conjI ballI)
  fix e assume "e \<in> set (queue st')"
  with assms(3) have "e \<in> set (queue st) \<or> (\<forall>p. ev e \<noteq> Unload_timeout p)" by blast
  then have "entry_ok ut (ships st) e"
    using assms(1) by (auto simp: unload_ok_def intro: entry_ok_other)
  with assms(4,5) show "entry_ok ut (ships st') e" by (simp add: entry_ok_update)
next
  fix g assume "g \<in> set (ships st')"
  with assms(1,4,6) show "unload_frame ut g" by (auto simp: unload_ok_def dest!: in_set_update)
next
  fix d assume "d \<in> set (results_data st')"
  with assms(1,2) show "unload_record ut d" by (simp add: unload_ok_def)
qed

lemma unload_ok_ship_start: "unload_ok ut st \<Longrightarrow> unload_ok ut (ship_start p st)"
proof (cases "frame_at st p")
  case None
  assume "unload_ok ut st"
  with None show ?thesis by (simp add: ship_start_def)
next
  case (Some f)
  assume i: "unload_ok ut st"
  show ?thesis
  proof (cases f)
    case (Not_started n c)
    with Some have fr: "ships st ! p = Not_started n c"
      by (simp add: frame_at_def split: if_splits)
    show ?thesis
    proof (rule unload_ok_frames [OF i, where p = p and f = "At_berth_request n c (now st)"])
      fix e assume "e \<in> set (queue (ship_start p st))"
      then show "e \<in> set (queue st) \<or> (\<forall>p. ev e \<noteq> Unload_timeout p)"
        by (auto dest!: queue_ship_start)
    qed (simp_all add: ship_start_def Some Not_started frame_defs fr early_def unload_frame_def)
  qed (use i Some in \<open>simp_all add: ship_start_def\<close>)
qed

lemma unload_ok_ship_docked: "unload_ok ut st \<Longrightarrow> unload_ok ut (ship_docked p st)"
proof (cases "frame_at st p")
  case None
  assume "unload_ok ut st"
  with None show ?thesis by (simp add: ship_docked_def)
next
  case (Some f)
  assume i: "unload_ok ut st"
  show ?thesis
  proof (cases f)
    case (At_berth_request n c a)
    with Some have fr: "ships st ! p = At_berth_request n c a"
      by (simp add: frame_at_def split: if_splits)
    show ?thesis
    proof (rule unload_ok_frames [OF i, where p = p and f = "At_crane_request n c a (now st)"])
      fix e assume "e \<in> set (queue (ship_docked p st))"
      then show "e \<in> set (queue st) \<or> (\<forall>p. ev e \<noteq> Unload_timeout p)"
        by (auto dest!: queue_ship_docked)
    qed (simp_all add: ship_docked_def Some At_berth_request frame_defs fr early_def
           unload_frame_def)
  qed (use i Some in \<open>simp_all add: ship_docked_def\<close>)
qed


lemma queue_ship_crane_secured_ok:
  "frame_at st p = Some (At_crane_request n c a d) \<Longrightarrow> \<not> c * ut < 0 \<Longrightarrow>
   e \<in> set (queue (ship_crane_secured ut p st)) \<Longrightarrow>
   e \<in> set (queue st) \<or> ev e = Unload_timeout p \<and> etime e = now st + c * ut"
  by (auto simp: ship_crane_secured_def frame_defs Let_def)

lemma unload_ok_ship_crane_secured:
  "unload_ok ut st \<Longrightarrow> unload_ok ut (ship_crane_secured ut p st)"
proof (cases "frame_at st p")
  case None
  assume "unload_ok ut st"
  with None show ?thesis by (simp add: ship_crane_secured_def)
next
  case (Some f)
  assume i: "unload_ok ut st"
  show ?thesis
  proof (cases f)
    case (At_crane_request n c a d)
    with Some have fr: "ships st ! p = At_crane_request n c a d" and len: "p < length (ships st)"
      by (simp_all add: frame_at_def split: if_splits)
    let ?st' = "ship_crane_secured ut p st"
    show ?thesis
    proof (cases "c * ut < 0")
      case True
      show ?thesis
      proof (rule unload_ok_frames [OF i, where p = p and f = Raised])
        fix e assume "e \<in> set (queue ?st')"
        with True Some At_crane_request
        show "e \<in> set (queue st) \<or> (\<forall>p. ev e \<noteq> Unload_timeout p)"
          by (auto dest!: queue_ship_crane_secured)
      qed (simp_all add: ship_crane_secured_def Some At_crane_request frame_defs fr early_def
             unload_frame_def True)
    next
      case False
      let ?f = "At_unload_timeout n c a d (now st)"
      from False Some At_crane_request
      have sh: "ships ?st' = (ships st)[p := ?f]" and rs: "results_data ?st' = results_data st"
        by (simp_all add: ship_crane_secured_def frame_defs)
      show ?thesis
        unfolding unload_ok_def
      proof (intro conjI ballI)
        fix e assume e: "e \<in> set (queue ?st')"
        show "entry_ok ut (ships ?st') e"
        proof (cases "e \<in> set (queue st)")
          case True
          with i have "entry_ok ut (ships st) e" by (simp add: unload_ok_def)
          then show ?thesis by (simp add: sh entry_ok_update fr early_def)
        next
          case new: False
          with e False Some At_crane_request
          have "ev e = Unload_timeout p" "etime e = now st + c * ut"
            by (auto dest!: queue_ship_crane_secured_ok)
          with len show ?thesis by (simp add: entry_ok_def sh late_ok_def)
        qed
      next
        fix g assume "g \<in> set (ships ?st')"
        with i False show "unload_frame ut g"
          by (auto simp: sh unload_ok_def unload_frame_def dest!: in_set_update)
      next
        fix r assume "r \<in> set (results_data ?st')"
        with i show "unload_record ut r" by (simp add: rs unload_ok_def)
      qed
    qed
  qed (use i Some in \<open>simp_all add: ship_crane_secured_def\<close>)
qed

lemma unload_ok_ship_unloaded:
  assumes i: "unload_ok ut st"
    and head: "p < length (ships st) \<and> late_ok ut (ships st ! p) (now st)"
  shows "unload_ok ut (ship_unloaded p st)"
proof (cases "frame_at st p")
  case None
  with i show ?thesis by (simp add: ship_unloaded_def)
next
  case (Some f)
  show ?thesis
  proof (cases f)
    case (At_unload_timeout n c a d s)
    with Some have fr: "ships st ! p = At_unload_timeout n c a d s"
      by (simp add: frame_at_def split: if_splits)
    from head fr have t: "now st = s + c * ut" by (simp add: late_ok_def)
    from frame_at_mem [OF Some] i At_unload_timeout have pos: "0 \<le> c * ut"
      by (auto simp: unload_ok_def unload_frame_def)
    let ?st' = "ship_unloaded p st"
    from Some At_unload_timeout
    have sh: "ships ?st' = (ships st)[p := Returned]"
      and rs: "results_data ?st' = results_data st @
           [\<lparr>ship_id = n, cargo_containers = c, time_arrived_port = a, time_docked = d,
             time_crane_secured = s, time_unloading_complete = now st,
             time_departed_port = now st\<rparr>]"
      by (simp_all add: ship_unloaded_def frame_defs Let_def)
    show ?thesis
      unfolding unload_ok_def
    proof (intro conjI ballI)
      fix e assume e: "e \<in> set (queue ?st')"
      then have "e \<in> set (queue st) \<or> (\<forall>q. ev e \<noteq> Unload_timeout q)"
        by (auto dest!: queue_ship_unloaded)
      with i have "entry_ok ut (ships st) e"
        by (auto simp: unload_ok_def intro: entry_ok_other)
      then show "entry_ok ut (ships ?st') e" by (simp add: sh entry_ok_update)
    next
      fix g assume "g \<in> set (ships ?st')"
      with i show "unload_frame ut g"
        by (auto simp: sh unload_ok_def unload_frame_def dest!: in_set_update)
    next
      fix r assume "r \<in> set (results_data ?st')"
      with i t pos show "unload_record ut r"
        by (auto simp: rs unload_ok_def unload_record_def)
    qed
  qed (use i Some in \<open>simp_all add: ship_unloaded_def\<close>)
qed

lemma unload_ok_dispatch:
  assumes "unload_ok ut st" and "entry_ok ut (ships st) x" and "etime x = now st"
    and "dispatch ut (ev x) st = (s, st')"
  shows "unload_ok ut st'"
proof (cases "ev x")
  case (Unload_timeout p)
  with assms(2,3) have "p < length (ships st) \<and> late_ok ut (ships st ! p) (now st)"
    by (simp add: entry_ok_def)
  with assms(1,4) Unload_timeout show ?thesis by (auto simp: unload_ok_ship_unloaded)
next
  case Arrival_timeout
  with assms(1,4) show ?thesis
    by (auto simp: unload_ok_arrival_next unload_ok_spawn_ship split: option.splits)
qed (use assms(1,4) in \<open>auto simp: unload_ok_arrival_next unload_ok_ship_start
       unload_ok_ship_docked unload_ok_ship_crane_secured unload_ok_trigger_put\<close>)

lemma unload_ok_step: "unload_ok ut st \<Longrightarrow> step ut st = (x, st') \<Longrightarrow> unload_ok ut st'"
proof (cases "queue st")
  case Nil
  assume "unload_ok ut st" "step ut st = (x, st')"
  with Nil show ?thesis by (simp add: step_def)
next
  case (Cons e q)
  assume i: "unload_ok ut st" and s: "step ut st = (x, st')"
  let ?st = "st\<lparr>now := etime e, queue := q\<rparr>"
  from i Cons have a: "unload_ok ut ?st" and b: "entry_ok ut (ships ?st) e"
    by (simp_all add: unload_ok_def)
  have c: "etime e = now ?st" by simp
  from s Cons have d: "dispatch ut (ev e) ?st = (x, st')" by (simp add: step_def)
  show ?thesis by (rule unload_ok_dispatch [OF a b c d])
qed

text \<open>
  The order of releases in the history: a crane is released right after the unloading has
  finished (or right after the crane was secured, when the unloading timeout raised), the
  berth right after the crane, and a ship departs right after it released its berth.
\<close>

fun follows :: "action option \<Rightarrow> action \<Rightarrow> bool" where
  "follows prev (Crane_released p) =
     (prev = Some (Finished_unloading p) \<or> prev = Some (Secured_crane p))"
| "follows prev (Berth_released p) = (prev = Some (Crane_released p))"
| "follows prev (Departed p) = (prev = Some (Berth_released p))"
| "follows prev a = True"

fun release_order :: "action option \<Rightarrow> action list \<Rightarrow> bool" where
  "release_order prev [] = True"
| "release_order prev (a # as) = (follows prev a \<and> release_order (Some a) as)"

definition last_action :: "action option \<Rightarrow> action list \<Rightarrow> action option" where
  "last_action prev h = (if h = [] then prev else Some (last h))"

fun is_departed :: "action \<Rightarrow> bool" where
  "is_departed (Departed p) = True"
| "is_departed a = False"

definition history_ok :: "sim_state \<Rightarrow> bool" where
  "history_ok st \<longleftrightarrow>
     release_order None (history st) \<and>
     length (filter is_departed (history st)) = length (results_data st)"

lemma release_order_append:
  "release_order prev (h @ k) = (release_order prev h \<and> release_order (last_action prev h) k)"
  by (induction h arbitrary: prev) (auto simp: last_action_def)

lemma history_ok_arrival_next: "history_ok st \<Longrightarrow> history_ok (arrival_next st)"
  by (simp add: history_ok_def)

lemma history_ok_spawn_ship: "history_ok st \<Longrightarrow> history_ok (spawn_ship r st)"
  by (simp add: history_ok_def)

lemma history_ok_trigger_put:
  "history_ok st \<Longrightarrow> history_ok (berths_trigger_put st)"
  "history_ok st \<Longrightarrow> history_ok (cranes_trigger_put st)"
  by (simp_all add: history_ok_def)

lemma history_ok_ship_start: "history_ok st \<Longrightarrow> history_ok (ship_start p st)"
  by (simp add: history_ok_def ship_start_def frame_defs release_order_append
        split: option.splits ship_frame.splits)

lemma history_ok_ship_docked: "history_ok st \<Longrightarrow> history_ok (ship_docked p st)"
  by (simp add: history_ok_def ship_docked_def frame_defs release_order_append
        split: option.splits ship_frame.splits)

lemma history_ok_ship_crane_secured:
  "history_ok st \<Longrightarrow> history_ok (ship_crane_secured ut p st)"
  by (simp add: history_ok_def ship_crane_secured_def frame_defs release_order_append Let_def
        split: option.splits ship_frame.splits)

lemma history_ok_ship_unloaded: "history_ok st \<Longrightarrow> history_ok (ship_unloaded p st)"
  by (simp add: history_ok_def ship_unloaded_def frame_defs release_order_append Let_def
        split: option.splits ship_frame.splits)

lemma history_ok_dispatch:
  "history_ok st \<Longrightarrow> dispatch ut e st = (x, st') \<Longrightarrow> history_ok st'"
  by (cases e)
     (auto simp: history_ok_arrival_next history_ok_spawn_ship history_ok_ship_start
        history_ok_ship_docked history_ok_ship_crane_secured history_ok_ship_unloaded
        history_ok_trigger_put split: option.splits)

lemma history_ok_step: "history_ok st \<Longrightarrow> step ut st = (x, st') \<Longrightarrow> history_ok st'"
proof (cases "queue st")
  case Nil
  assume "history_ok st" "step ut st = (x, st')"
  with Nil show ?thesis by (simp add: step_def)
next
  case (Cons e q)
  assume i: "history_ok st" and s: "step ut st = (x, st')"
  from i have "history_ok (st\<lparr>now := etime e, queue := q\<rparr>)" by (simp add: history_ok_def)
  with s Cons show ?thesis by (auto simp: step_def intro: history_ok_dispatch)
qed

text \<open>The arrival process has one event in the queue until it ends.\<close>

definition is_driver :: "entry \<Rightarrow> bool" where
  "is_driver e \<longleftrightarrow> ev e = Init_driver \<or> ev e = Arrival_timeout"

definition times :: "arrival_row list \<Rightarrow> int list" where
  "times A = map row_arrival_time_minutes A"

lemma filter_heappush_other: "\<not> P x \<Longrightarrow> filter P (heappush x q) = filter P q"
  by (induction q) auto

lemma filter_heappush_single: "P x \<Longrightarrow> filter P q = [] \<Longrightarrow> filter P (heappush x q) = [x]"
  by (induction q) (auto split: if_splits)

text \<open>A step of a ship or of a resource leaves the arrival process as it is.\<close>

definition pushes :: "sim_state \<Rightarrow> sim_state \<Rightarrow> bool" where
  "pushes st st' \<longleftrightarrow>
     filter is_driver (queue st') = filter is_driver (queue st) \<and>
     set (queue st) \<subseteq> set (queue st') \<and> rows st' = rows st \<and> pending st' = pending st"

lemma pushes_refl [simp]: "pushes st st"
  by (simp add: pushes_def)

lemma pushes_trans: "pushes st st' \<Longrightarrow> pushes st' st'' \<Longrightarrow> pushes st st''"
  by (auto simp: pushes_def)

lemma pushes_schedule:
  "e \<noteq> Init_driver \<Longrightarrow> e \<noteq> Arrival_timeout \<Longrightarrow> pushes st (schedule e p d st)"
  by (auto simp: pushes_def filter_heappush_other is_driver_def)

lemma pushes_trigger_put: "pushes st (berths_trigger_put st)" "pushes st (cranes_trigger_put st)"
  by (auto simp: pushes_def berths_trigger_put_def cranes_trigger_put_def
        filter_heappush_other is_driver_def split: prod.splits option.splits)

lemma pushes_request: "pushes st (berths_request p st)" "pushes st (cranes_request p st)"
  using pushes_trigger_put(1)
          [of "st\<lparr>berths := (berths st)\<lparr>put_queue := put_queue (berths st) @ [p]\<rparr>\<rparr>"]
        pushes_trigger_put(2)
          [of "st\<lparr>cranes := (cranes st)\<lparr>put_queue := put_queue (cranes st) @ [p]\<rparr>\<rparr>"]
  by (simp_all add: pushes_def berths_request_def cranes_request_def)

lemma pushes_release: "pushes st (berths_release p st)" "pushes st (cranes_release p st)"
  by (auto simp: pushes_def berths_release_def cranes_release_def
        filter_heappush_other is_driver_def)

lemma pushes_frame:
  "pushes st (set_frame p f st)" "pushes st (log a st)" "pushes st (emit d st)"
  by (simp_all add: pushes_def frame_defs)

lemma pushes_spawn_ship: "pushes st (spawn_ship r st)"
  by (auto simp: pushes_def spawn_ship_def filter_heappush_other is_driver_def)

lemmas pushes_step = pushes_trans [rotated]

lemma pushes_ship_start: "pushes st (ship_start p st)"
  unfolding ship_start_def
  by (auto split: option.splits ship_frame.splits
        intro!: pushes_step [OF pushes_request(1)] pushes_step [OF pushes_frame(2)]
          pushes_frame(1))

lemma pushes_ship_docked: "pushes st (ship_docked p st)"
  unfolding ship_docked_def
  by (auto split: option.splits ship_frame.splits
        intro!: pushes_step [OF pushes_request(2)] pushes_step [OF pushes_frame(2)]
          pushes_frame(1))

lemma pushes_ship_crane_secured: "pushes st (ship_crane_secured ut p st)"
  unfolding ship_crane_secured_def Let_def
  by (auto split: option.splits ship_frame.splits
        intro!: pushes_step [OF pushes_schedule] pushes_step [OF pushes_release(1)]
          pushes_step [OF pushes_release(2)] pushes_step [OF pushes_frame(1)] pushes_frame(2))

lemma pushes_ship_unloaded: "pushes st (ship_unloaded p st)"
  unfolding ship_unloaded_def Let_def
  by (auto split: option.splits ship_frame.splits
        intro!: pushes_step [OF pushes_schedule] pushes_step [OF pushes_release(1)]
          pushes_step [OF pushes_release(2)] pushes_step [OF pushes_frame(1)]
          pushes_step [OF pushes_frame(2)] pushes_step [OF pushes_frame(3)] pushes_frame(2))

lemma pushes_dispatch:
  "e \<noteq> Init_driver \<Longrightarrow> e \<noteq> Arrival_timeout \<Longrightarrow> dispatch ut e st = (x, st') \<Longrightarrow>
   pushes st st'"
  by (cases e)
     (auto simp: pushes_ship_start pushes_ship_docked pushes_ship_crane_secured
        pushes_ship_unloaded pushes_trigger_put)

definition waiting :: "arrival_row list \<Rightarrow> sim_state \<Rightarrow> entry \<Rightarrow> bool" where
  "waiting A st e \<longleftrightarrow>
     ev e = Init_driver \<and> pending st = None \<and> rows st = A \<or>
     ev e = Arrival_timeout \<and>
       (\<exists>r pre. pending st = Some r \<and> etime e = row_arrival_time_minutes r \<and>
                 A = pre @ r # rows st \<and> sorted (times (pre @ [r])))"

definition failed_early :: "int \<Rightarrow> sim_state \<Rightarrow> bool" where
  "failed_early h st \<longleftrightarrow> (\<exists>e \<in> set (queue st). (\<exists>x. ev e = Driver_failed x) \<and> etime e < h)"

definition driver_ok :: "arrival_row list \<Rightarrow> int \<Rightarrow> sim_state \<Rightarrow> bool" where
  "driver_ok A h st \<longleftrightarrow>
     (\<exists>e. filter is_driver (queue st) = [e] \<and> etime e < h \<and> waiting A st e) \<or>
     filter is_driver (queue st) = [] \<and>
       (sorted (times A) \<and> rows st = [] \<and> pending st = None \<or> failed_early h st)"

lemma driver_ok_arrival_next:
  assumes none: "filter is_driver (queue s) = []"
    and hor: "\<forall>r \<in> set A. row_arrival_time_minutes r < h"
    and nowh: "now s < h"
    and split: "A = pre @ rows s"
    and srt: "sorted (times pre)"
    and le: "\<forall>x \<in> set (times pre). x \<le> now s"
  shows "driver_ok A h (arrival_next s)"
proof (cases "rows s")
  case Nil
  with split srt have "sorted (times A)" by simp
  moreover from Nil none have "filter is_driver (queue (arrival_next s)) = []"
    by (simp add: arrival_next_def filter_heappush_other is_driver_def)
  moreover from Nil have "rows (arrival_next s) = []" "pending (arrival_next s) = None"
    by (simp_all add: arrival_next_def)
  ultimately show ?thesis by (simp add: driver_ok_def)
next
  case (Cons r rs)
  show ?thesis
  proof (cases "row_arrival_time_minutes r - now s < 0")
    case True
    with Cons none have "filter is_driver (queue (arrival_next s)) = []"
      by (simp add: arrival_next_def filter_heappush_other is_driver_def)
    moreover from True Cons nowh have "failed_early h (arrival_next s)"
      by (auto simp: arrival_next_def failed_early_def)
    ultimately show ?thesis by (simp add: driver_ok_def)
  next
    case False
    let ?x = "\<lparr>etime = now s + (row_arrival_time_minutes r - now s), eprio = NORMAL,
               eid = next_eid s, ev = Arrival_timeout\<rparr>"
    from False Cons none have f: "filter is_driver (queue (arrival_next s)) = [?x]"
      by (simp add: arrival_next_def filter_heappush_single is_driver_def)
    from split Cons hor have "row_arrival_time_minutes r < h" by simp
    then have t: "etime ?x < h" by simp
    from le False have "\<forall>x \<in> set (times pre). x \<le> row_arrival_time_minutes r" by auto
    with srt have "sorted (times (pre @ [r]))" by (simp add: times_def sorted_append)
    with False Cons split have "waiting A (arrival_next s) ?x"
      by (simp add: waiting_def arrival_next_def)
    with f t show ?thesis unfolding driver_ok_def by blast
  qed
qed

lemma step_Continue:
  "step ut st = (Continue, st') \<Longrightarrow>
   \<exists>e q. queue st = e # q \<and> dispatch ut (ev e) (st\<lparr>now := etime e, queue := q\<rparr>) = (Continue, st')"
  by (cases "queue st") (auto simp: step_def)

lemma driver_ok_step:
  assumes inv: "driver_ok A h st"
    and hor: "\<forall>r \<in> set A. row_arrival_time_minutes r < h"
    and st: "step ut st = (Continue, st')"
  shows "driver_ok A h st'"
proof -
  from step_Continue [OF st] obtain e q where q: "queue st = e # q"
    and d: "dispatch ut (ev e) (st\<lparr>now := etime e, queue := q\<rparr>) = (Continue, st')"
    by blast
  let ?s = "st\<lparr>now := etime e, queue := q\<rparr>"
  show ?thesis
  proof (cases "is_driver e")
    case True
    with inv q have none: "filter is_driver (queue ?s) = []"
      and w: "waiting A st e" and eh: "etime e < h"
      by (auto simp: driver_ok_def)
    show ?thesis
    proof (cases "ev e = Init_driver")
      case init: True
      with d have s': "st' = arrival_next ?s" by simp
      from init w have "A = [] @ rows ?s" by (simp add: waiting_def)
      from driver_ok_arrival_next [OF none hor _ this] eh show ?thesis
        by (simp add: s' times_def)
    next
      case False
      with w obtain r pre where ev: "ev e = Arrival_timeout" and p: "pending st = Some r"
        and t: "etime e = row_arrival_time_minutes r" and a: "A = pre @ r # rows st"
        and srt: "sorted (times (pre @ [r]))"
        by (auto simp: waiting_def)
      let ?s1 = "spawn_ship r ?s"
      from d ev p have s': "st' = arrival_next ?s1" by simp
      from none have n1: "filter is_driver (queue ?s1) = []"
        by (simp add: spawn_ship_def filter_heappush_other is_driver_def)
      from a have a1: "A = (pre @ [r]) @ rows ?s1" by simp
      from srt t have le: "\<forall>x \<in> set (times (pre @ [r])). x \<le> now ?s1"
        by (auto simp: times_def sorted_append)
      from eh have nh: "now ?s1 < h" by simp
      show ?thesis
        unfolding s' by (rule driver_ok_arrival_next [OF n1 hor nh a1 srt le])
    qed
  next
    case False
    then have ne: "ev e \<noteq> Init_driver" "ev e \<noteq> Arrival_timeout" by (auto simp: is_driver_def)
    from pushes_dispatch [OF ne d] have p: "pushes ?s st'" .
    from False q have fq: "filter is_driver (queue st) = filter is_driver q" by simp
    from inv consider e1 where "filter is_driver (queue st) = [e1]" "etime e1 < h" "waiting A st e1"
      | "filter is_driver (queue st) = []"
        "sorted (times A) \<and> rows st = [] \<and> pending st = None \<or> failed_early h st"
      unfolding driver_ok_def by blast
    then show ?thesis
    proof cases
      case 1
      with p fq have "filter is_driver (queue st') = [e1] \<and> etime e1 < h \<and> waiting A st' e1"
        by (simp add: pushes_def waiting_def)
      then show ?thesis unfolding driver_ok_def by blast
    next
      case 2
      from 2(1) p fq have n': "filter is_driver (queue st') = []" by (simp add: pushes_def)
      have "sorted (times A) \<and> rows st' = [] \<and> pending st' = None \<or> failed_early h st'"
      proof (cases "sorted (times A) \<and> rows st = [] \<and> pending st = None")
        case True
        with p show ?thesis by (simp add: pushes_def)
      next
        case False
        with 2(2) obtain y x where y: "y \<in> set (queue st)" "ev y = Driver_failed x" "etime y < h"
          by (auto simp: failed_early_def)
        from d have "ev e \<noteq> Driver_failed x" by auto
        with y q have "y \<in> set q" by auto
        with p have "y \<in> set (queue st')" by (auto simp: pushes_def)
        with y show ?thesis by (auto simp: failed_early_def)
      qed
      with n' show ?thesis by (simp add: driver_ok_def)
    qed
  qed
qed

lemma step_Stop:
  "step ut st = (Stop, st') \<Longrightarrow>
   \<exists>e q. queue st = e # q \<and> ev e = Until \<and> st' = st\<lparr>now := etime e, queue := q\<rparr>"
proof (cases "queue st")
  case Nil
  assume "step ut st = (Stop, st')"
  with Nil show ?thesis by (simp add: step_def)
next
  case (Cons e q)
  assume "step ut st = (Stop, st')"
  with Cons have "dispatch ut (ev e) (st\<lparr>now := etime e, queue := q\<rparr>) = (Stop, st')"
    by (simp add: step_def)
  with Cons show ?thesis by (cases "ev e") (auto split: option.splits)
qed

lemma stop_sorted:
  assumes "driver_ok A h st" and "clock_ok st" and "until_ok h st"
    and "step ut st = (Stop, st')"
  shows "sorted (times A) \<and> rows st' = [] \<and> pending st' = None \<and> now st' = h"
proof -
  from step_Stop [OF assms(4)] obtain e q where q: "queue st = e # q" and u: "ev e = Until"
    and s': "st' = st\<lparr>now := etime e, queue := q\<rparr>"
    by blast
  from assms(3) q u have h: "etime e = h" by (simp add: until_ok_def)
  from assms(2) q h have late: "\<forall>y \<in> set q. h \<le> etime y" by (auto simp: clock_ok_def)
  from u have nd: "\<not> is_driver e" by (simp add: is_driver_def)
  have "sorted (times A) \<and> rows st = [] \<and> pending st = None"
  proof (rule ccontr)
    assume ns: "\<not> (sorted (times A) \<and> rows st = [] \<and> pending st = None)"
    with assms(1) q nd consider e1 where "filter is_driver q = [e1]" "etime e1 < h"
      | "failed_early h st"
      by (auto simp: driver_ok_def)
    then show False
    proof cases
      case 1
      then have "e1 \<in> set (filter is_driver q)" by simp
      then have "e1 \<in> set q" by simp
      with late 1 show False by auto
    next
      case 2
      with q u late show False by (auto simp: failed_early_def)
    qed
  qed
  with s' h show ?thesis by simp
qed

text \<open>Every row is waiting to be spawned or has a ship; every returned ship left a record.\<close>

definition not_spawned :: "sim_state \<Rightarrow> nat" where
  "not_spawned st = length (rows st) + (case pending st of None \<Rightarrow> 0 | Some r \<Rightarrow> 1)"

definition returned :: "ship_frame list \<Rightarrow> nat" where
  "returned fs = length (filter (\<lambda>f. f = Returned) fs)"

definition count_ok :: "nat \<Rightarrow> sim_state \<Rightarrow> bool" where
  "count_ok n st \<longleftrightarrow>
     length (ships st) + not_spawned st = n \<and>
     length (results_data st) = returned (ships st)"

lemma returned_update:
  "p < length fs \<Longrightarrow> fs ! p \<noteq> Returned \<Longrightarrow>
   returned (fs[p := f]) = returned fs + (if f = Returned then 1 else 0)"
proof (induction fs arbitrary: p)
  case Nil
  then show ?case by simp
next
  case (Cons g gs)
  then show ?case by (cases p) (auto simp: returned_def)
qed

lemma returned_append [simp]: "returned (fs @ [Not_started n c]) = returned fs"
  by (simp add: returned_def)

lemma count_ok_pushes:
  "count_ok n st \<Longrightarrow> ships st' = ships st \<Longrightarrow> results_data st' = results_data st \<Longrightarrow>
   rows st' = rows st \<Longrightarrow> pending st' = pending st \<Longrightarrow> count_ok n st'"
  by (simp add: count_ok_def not_spawned_def)

lemma count_ok_trigger_put:
  "count_ok n st \<Longrightarrow> count_ok n (berths_trigger_put st)"
  "count_ok n st \<Longrightarrow> count_ok n (cranes_trigger_put st)"
  by (erule count_ok_pushes; simp)+

lemma count_ok_ship_start: "count_ok n st \<Longrightarrow> count_ok n (ship_start p st)"
  by (auto simp: count_ok_def not_spawned_def ship_start_def frame_defs frame_at_def
        returned_update split: option.splits ship_frame.splits if_splits)

lemma count_ok_ship_docked: "count_ok n st \<Longrightarrow> count_ok n (ship_docked p st)"
  by (auto simp: count_ok_def not_spawned_def ship_docked_def frame_defs frame_at_def
        returned_update split: option.splits ship_frame.splits if_splits)

lemma count_ok_ship_crane_secured: "count_ok n st \<Longrightarrow> count_ok n (ship_crane_secured ut p st)"
  by (auto simp: count_ok_def not_spawned_def ship_crane_secured_def frame_defs frame_at_def
        returned_update Let_def split: option.splits ship_frame.splits if_splits)

lemma count_ok_ship_unloaded: "count_ok n st \<Longrightarrow> count_ok n (ship_unloaded p st)"
  by (auto simp: count_ok_def not_spawned_def ship_unloaded_def frame_defs frame_at_def
        returned_update Let_def split: option.splits ship_frame.splits if_splits)

lemma not_spawned_arrival_next:
  "not_spawned (arrival_next st) = length (rows st)"
  by (simp add: not_spawned_def arrival_next_def Let_def split: list.splits)

lemma count_ok_dispatch:
  assumes "count_ok n st" and "e = Init_driver \<longrightarrow> pending st = None"
    and "dispatch ut e st = (x, st')"
  shows "count_ok n st'"
proof (cases e)
  case Init_driver
  with assms show ?thesis
    by (auto simp: count_ok_def not_spawned_arrival_next) (simp add: not_spawned_def)
next
  case Arrival_timeout
  with assms show ?thesis
    by (auto simp: count_ok_def not_spawned_arrival_next split: option.splits)
       (simp_all add: not_spawned_def)
qed (use assms in \<open>auto simp: count_ok_ship_start count_ok_ship_docked
       count_ok_ship_crane_secured count_ok_ship_unloaded count_ok_trigger_put\<close>)

lemma count_ok_step:
  assumes d: "driver_ok A h st" and c: "count_ok n st" and s: "step ut st = (x, st')"
  shows "count_ok n st'"
proof (cases "queue st")
  case Nil
  with c s show ?thesis by (simp add: step_def)
next
  case (Cons e q)
  let ?s = "st\<lparr>now := etime e, queue := q\<rparr>"
  from c have c': "count_ok n ?s" by (simp add: count_ok_def not_spawned_def)
  have "ev e = Init_driver \<longrightarrow> pending ?s = None"
  proof
    assume i: "ev e = Init_driver"
    then have "is_driver e" by (simp add: is_driver_def)
    with d Cons have "waiting A st e" by (auto simp: driver_ok_def)
    with i show "pending ?s = None" by (simp add: waiting_def)
  qed
  moreover from s Cons have "dispatch ut (ev e) ?s = (x, st')" by (simp add: step_def)
  ultimately show ?thesis using c' by (auto intro: count_ok_dispatch)
qed

text \<open>The invariant of the run, and what holds of the state it leaves.\<close>

definition invariant :: "int \<Rightarrow> arrival_row list \<Rightarrow> int \<Rightarrow> sim_state \<Rightarrow> bool" where
  "invariant ut A h st \<longleftrightarrow>
     clock_ok st \<and> stamps_ok st \<and> until_ok h st \<and> unload_ok ut st \<and> history_ok st \<and>
     driver_ok A h st \<and> count_ok (length A) st"

definition settled :: "int \<Rightarrow> arrival_row list \<Rightarrow> sim_state \<Rightarrow> bool" where
  "settled ut A st \<longleftrightarrow>
     stamps_ok st \<and> unload_ok ut st \<and> history_ok st \<and> count_ok (length A) st"

definition complete :: "arrival_row list \<Rightarrow> error option \<times> sim_state \<Rightarrow> bool" where
  "complete A r \<longleftrightarrow>
     (fst r = None \<longrightarrow>
        sorted (times A) \<and> rows (snd r) = [] \<and> pending (snd r) = None \<and>
        (A \<noteq> [] \<longrightarrow> simulation_runtime A = Some (now (snd r))))"

lemma new_environment_fields [simp]:
  "now (new_environment nb nc A rs) = 0"
  "queue (new_environment nb nc A rs) = []"
  "next_eid (new_environment nb nc A rs) = 0"
  "rows (new_environment nb nc A rs) = A"
  "pending (new_environment nb nc A rs) = None"
  "ships (new_environment nb nc A rs) = []"
  "results_data (new_environment nb nc A rs) = rs"
  "history (new_environment nb nc A rs) = []"
  by (simp_all add: new_environment_def)

lemma invariant_step:
  assumes "invariant ut A h st" and "\<forall>r \<in> set A. row_arrival_time_minutes r < h"
    and "step ut st = (Continue, st')"
  shows "invariant ut A h st'"
  using assms unfolding invariant_def
  by (auto dest: clock_ok_step stamps_ok_step until_ok_step unload_ok_step history_ok_step
        driver_ok_step count_ok_step)

lemma invariant_settled:
  assumes "invariant ut A h st" and "step ut st = (x, st')"
  shows "settled ut A st'"
  using assms unfolding invariant_def settled_def
  by (auto dest: stamps_ok_step unload_ok_step history_ok_step count_ok_step)

lemma run_loop_outcome:
  assumes inv: "invariant ut A h st" and hor: "\<forall>r \<in> set A. row_arrival_time_minutes r < h"
    and rt: "A \<noteq> [] \<longrightarrow> simulation_runtime A = Some h"
  shows "settled ut A (snd (run_loop ut st)) \<and> complete A (run_loop ut st)"
proof (rule run_loop_rule [where I = "invariant ut A h"
        and Q = "\<lambda>r. settled ut A (snd r) \<and> complete A r", OF inv])
  fix s s' assume "invariant ut A h s" "step ut s = (Continue, s')"
  then show "invariant ut A h s'" using hor by (auto intro: invariant_step)
next
  fix s s' assume i: "invariant ut A h s" and s: "step ut s = (Stop, s')"
  from i have "driver_ok A h s" "clock_ok s" "until_ok h s" by (simp_all add: invariant_def)
  from stop_sorted [OF this s] rt invariant_settled [OF i s]
  show "settled ut A (snd (None, s')) \<and> complete A (None, s')"
    by (simp add: complete_def)
next
  fix s s' e assume i: "invariant ut A h s" and s: "step ut s = (Crash e, s')"
  from invariant_settled [OF i s]
  show "settled ut A (snd (Some e, s')) \<and> complete A (Some e, s')"
    by (simp add: complete_def)
qed

lemma fold_max_ge: "x \<le> fold max ys x \<and> (\<forall>y \<in> set ys. y \<le> fold max ys (x::int))"
proof (induction ys arbitrary: x)
  case Nil
  show ?case by simp
next
  case (Cons y ys)
  from Cons [of "max y x"] show ?case by auto
qed

lemma column_max_ge: "column_max xs = Some m \<Longrightarrow> \<forall>x \<in> set xs. x \<le> m"
  using fold_max_ge by (cases xs) (auto simp: column_max_def)

lemma settled_new_environment: "settled ut A (new_environment nb nc A [])"
  by (simp add: settled_def new_environment_def stamps_ok_def unload_ok_def history_ok_def
        count_ok_def not_spawned_def returned_def)

lemma settled_schedule: "settled ut A st \<Longrightarrow> \<forall>p. e \<noteq> Unload_timeout p \<Longrightarrow>
  settled ut A (schedule e p d st)"
  by (auto simp: settled_def stamps_ok_def unload_ok_def history_ok_def count_ok_def
        not_spawned_def intro: entry_ok_other)

lemma invariant_start:
  assumes "0 < h"
  shows "invariant ut A h
           (schedule Until URGENT (h - 0) (schedule Init_driver URGENT 0 (new_environment nb nc A [])))"
proof -
  let ?s = "schedule Until URGENT (h - 0) (schedule Init_driver URGENT 0 (new_environment nb nc A []))"
  let ?i = "\<lparr>etime = 0, eprio = URGENT, eid = 0, ev = Init_driver\<rparr>"
  let ?u = "\<lparr>etime = h, eprio = URGENT, eid = Suc 0, ev = Until\<rparr>"
  from assms have q: "queue ?s = [?i, ?u]"
    by (simp add: new_environment_def before_def)
  have f: "now ?s = 0" "rows ?s = A" "pending ?s = None" "ships ?s = []"
    "results_data ?s = []" "history ?s = []"
    by (simp_all add: new_environment_def)
  have "filter is_driver (queue ?s) = [?i]" by (simp only: q) (simp add: is_driver_def)
  moreover have "waiting A ?s ?i" by (simp add: waiting_def new_environment_def)
  moreover from assms have "etime ?i < h" by simp
  ultimately have "driver_ok A h ?s" unfolding driver_ok_def by blast
  moreover from assms have "clock_ok ?s" unfolding clock_ok_def by (simp only: q f) simp
  moreover have "until_ok h ?s" unfolding until_ok_def by (simp only: q) simp
  moreover have "stamps_ok ?s" "history_ok ?s" "count_ok (length A) ?s"
    by (simp_all add: stamps_ok_def history_ok_def count_ok_def not_spawned_def returned_def f)
  moreover have "unload_ok ut ?s" unfolding unload_ok_def by (simp only: q f) (simp add: entry_ok_def)
  ultimately show ?thesis by (simp add: invariant_def)
qed

lemma run_state_outcome:
  "settled ut A (snd (run_state nb nc ut A rd)) \<and> complete A (run_state nb nc ut A rd)"
proof (cases "nb \<le> 0 \<or> nc \<le> 0")
  case True
  then show ?thesis
    by (simp add: run_state_def Let_def clear_def settled_new_environment complete_def)
next
  case cap: False
  let ?s1 = "schedule Init_driver URGENT 0 (new_environment nb nc A [])"
  have s1: "settled ut A ?s1" by (simp add: settled_schedule settled_new_environment)
  have n1: "now ?s1 = 0" by (simp add: new_environment_def)
  from cap have run: "run_state nb nc ut A rd = env_run ut (simulation_runtime A) ?s1"
    by (simp add: run_state_def Let_def clear_def)
  show ?thesis
  proof (cases "simulation_runtime A")
    case None
    then have A: "A = []" by (simp add: simulation_runtime_def column_max_def split: list.splits)
    define s2 where "s2 = snd (step ut ?s1)"
    have "step ut ?s1 = (Continue, s2)"
      by (simp add: s2_def step_def new_environment_def)
    with run have run': "run_state nb nc ut A rd = (None, s2)"
      by (simp add: env_run_def None)
    have "settled ut A s2"
      by (simp add: s2_def step_def A settled_def stamps_ok_def unload_ok_def history_ok_def
            count_ok_def not_spawned_def returned_def arrival_next_def new_environment_def
            entry_ok_def)
    moreover have "rows s2 = []" "pending s2 = None"
      by (simp_all add: s2_def step_def A arrival_next_def new_environment_def)
    ultimately show ?thesis
      unfolding run' by (simp add: complete_def A times_def)
  next
    case (Some h)
    show ?thesis
    proof (cases "h \<le> 0")
      case True
      with s1 show ?thesis by (simp add: run env_run_def Some n1 complete_def)
    next
      case False
      from Some obtain m where m: "column_max (times A) = Some m" and h: "h = m + 20000"
        by (auto simp: simulation_runtime_def times_def)
      from column_max_ge [OF m] h have hor: "\<forall>r \<in> set A. row_arrival_time_minutes r < h"
        by (auto simp: times_def)
      from False have "0 < h" by simp
      from run_loop_outcome [OF invariant_start [OF this] hor] Some False
      show ?thesis by (simp add: run env_run_def n1)
    qed
  qed
qed

text \<open>How a run can raise, and what the failure of the arrival process tells.\<close>

lemma step_Crash:
  assumes "step ut st = (Crash x, st')"
  shows "queue st = [] \<and> x = Empty_schedule \<or>
         (\<exists>e q. queue st = e # q \<and> st' = st\<lparr>now := etime e, queue := q\<rparr> \<and>
                (ev e = Driver_failed x \<or> (\<exists>p. ev e = Ship_failed p x)))"
proof (cases "queue st")
  case Nil
  with assms show ?thesis by (simp add: step_def)
next
  case (Cons e q)
  with assms have "dispatch ut (ev e) (st\<lparr>now := etime e, queue := q\<rparr>) = (Crash x, st')"
    by (simp add: step_def)
  with Cons show ?thesis by (cases "ev e") (auto split: option.splits)
qed

lemma queue_dispatch_kinds:
  "dispatch ut e st = (x, st') \<Longrightarrow> e \<noteq> Init_driver \<Longrightarrow> e \<noteq> Arrival_timeout \<Longrightarrow>
   y \<in> set (queue st') \<Longrightarrow> y \<in> set (queue st) \<or> (\<forall>z. ev y \<noteq> Driver_failed z)"
  by (cases e)
     (auto dest!: queue_ship_start queue_ship_docked queue_ship_crane_secured
          queue_ship_unloaded queue_trigger_put)

definition failure_ok :: "arrival_row list \<Rightarrow> sim_state \<Rightarrow> entry \<Rightarrow> error \<Rightarrow> bool" where
  "failure_ok A st e x \<longleftrightarrow>
     pending st = None \<and>
     ((\<exists>pre r r' post.
         A = pre @ r # r' # post \<and> rows st = r' # post \<and> sorted (times (pre @ [r])) \<and>
         row_arrival_time_minutes r' < row_arrival_time_minutes r \<and>
         x = Negative_delay (row_arrival_time_minutes r' - row_arrival_time_minutes r) \<and>
         etime e = row_arrival_time_minutes r) \<or>
      (\<exists>r post. A = r # post \<and> rows st = A \<and> row_arrival_time_minutes r < 0 \<and>
         x = Negative_delay (row_arrival_time_minutes r) \<and> etime e = 0))"

definition failures_ok :: "arrival_row list \<Rightarrow> sim_state \<Rightarrow> bool" where
  "failures_ok A st \<longleftrightarrow>
     (\<forall>e \<in> set (queue st). \<forall>x. ev e = Driver_failed x \<longrightarrow> failure_ok A st e x) \<and>
     (\<forall>e \<in> set (queue st). ev e = Init_driver \<longrightarrow> etime e = 0) \<and>
     (filter is_driver (queue st) \<noteq> [] \<longrightarrow>
        (\<forall>e \<in> set (queue st). \<forall>x. ev e \<noteq> Driver_failed x))"

lemma failures_ok_arrival_next:
  assumes none: "filter is_driver (queue s) = []"
    and nofail: "\<forall>e \<in> set (queue s). \<forall>x. ev e \<noteq> Driver_failed x"
    and noinit: "\<forall>e \<in> set (queue s). ev e \<noteq> Init_driver"
    and split: "A = pre @ rows s"
    and srt: "sorted (times pre)"
    and at: "pre = [] \<and> now s = 0 \<or> (\<exists>p r. pre = p @ [r] \<and> now s = row_arrival_time_minutes r)"
  shows "failures_ok A (arrival_next s)"
proof (cases "rows s")
  case Nil
  with nofail noinit none show ?thesis
    by (auto simp: failures_ok_def arrival_next_def filter_heappush_other is_driver_def)
next
  case (Cons r' rs)
  show ?thesis
  proof (cases "row_arrival_time_minutes r' - now s < 0")
    case True
    let ?x = "Negative_delay (row_arrival_time_minutes r' - now s)"
    let ?e = "\<lparr>etime = now s + 0, eprio = NORMAL, eid = next_eid s, ev = Driver_failed ?x\<rparr>"
    from True Cons have q: "queue (arrival_next s) = heappush ?e (queue s)"
      and r: "rows (arrival_next s) = r' # rs" and p: "pending (arrival_next s) = None"
      by (simp_all add: arrival_next_def)
    have f: "failure_ok A (arrival_next s) ?e ?x"
      using at
    proof (elim disjE conjE exE)
      assume "pre = []" "now s = 0"
      with split Cons True show ?thesis by (simp add: failure_ok_def r p)
    next
      fix p0 r0 assume pre: "pre = p0 @ [r0]" and t: "now s = row_arrival_time_minutes r0"
      from split Cons pre have "A = p0 @ r0 # r' # rs" by simp
      moreover from srt pre have "sorted (times (p0 @ [r0]))" by simp
      ultimately show ?thesis
        using True t unfolding failure_ok_def r p by auto
    qed
    from none have "filter is_driver (queue (arrival_next s)) = []"
      by (simp add: q filter_heappush_other is_driver_def)
    with f nofail noinit show ?thesis
      by (auto simp: failures_ok_def q)
  next
    case False
    with Cons nofail noinit show ?thesis
      by (auto simp: failures_ok_def arrival_next_def)
  qed
qed

lemma failures_ok_step:
  assumes drv: "driver_ok A h st" and inv: "failures_ok A st"
    and st: "step ut st = (Continue, st')"
  shows "failures_ok A st'"
proof -
  from step_Continue [OF st] obtain e q where q: "queue st = e # q"
    and d: "dispatch ut (ev e) (st\<lparr>now := etime e, queue := q\<rparr>) = (Continue, st')"
    by blast
  let ?s = "st\<lparr>now := etime e, queue := q\<rparr>"
  show ?thesis
  proof (cases "is_driver e")
    case True
    with drv q have none: "filter is_driver (queue ?s) = []" and w: "waiting A st e"
      by (auto simp: driver_ok_def)
    from True inv q have nofail: "\<forall>e \<in> set (queue ?s). \<forall>x. ev e \<noteq> Driver_failed x"
      by (auto simp: failures_ok_def)
    from none have noinit: "\<forall>e \<in> set (queue ?s). ev e \<noteq> Init_driver"
      by (auto simp: filter_empty_conv is_driver_def)
    show ?thesis
    proof (cases "ev e = Init_driver")
      case init: True
      with d have s': "st' = arrival_next ?s" by simp
      from init w have a: "A = [] @ rows ?s" by (simp add: waiting_def)
      from init inv q have "now ?s = 0" by (simp add: failures_ok_def)
      then have "[] = [] \<and> now ?s = 0 \<or>
          (\<exists>p r. ([]::arrival_row list) = p @ [r] \<and> now ?s = row_arrival_time_minutes r)"
        by simp
      from failures_ok_arrival_next [OF none nofail noinit a _ this] show ?thesis
        by (simp add: s' times_def)
    next
      case False
      with w obtain r pre where ev: "ev e = Arrival_timeout" and p: "pending st = Some r"
        and t: "etime e = row_arrival_time_minutes r" and a: "A = pre @ r # rows st"
        and srt: "sorted (times (pre @ [r]))"
        by (auto simp: waiting_def)
      let ?s1 = "spawn_ship r ?s"
      from d ev p have s': "st' = arrival_next ?s1" by simp
      from none have n1: "filter is_driver (queue ?s1) = []"
        by (simp add: spawn_ship_def filter_heappush_other is_driver_def)
      from nofail have f1: "\<forall>e \<in> set (queue ?s1). \<forall>x. ev e \<noteq> Driver_failed x"
        by (auto simp: spawn_ship_def)
      from noinit have i1: "\<forall>e \<in> set (queue ?s1). ev e \<noteq> Init_driver"
        by (auto simp: spawn_ship_def)
      from a have a1: "A = (pre @ [r]) @ rows ?s1" by simp
      from t have "pre @ [r] = [] \<and> now ?s1 = 0 \<or>
          (\<exists>p r'. pre @ [r] = p @ [r'] \<and> now ?s1 = row_arrival_time_minutes r')"
        by simp
      from failures_ok_arrival_next [OF n1 f1 i1 a1 srt this] show ?thesis by (simp add: s')
    qed
  next
    case False
    then have ne: "ev e \<noteq> Init_driver" "ev e \<noteq> Arrival_timeout" by (auto simp: is_driver_def)
    from pushes_dispatch [OF ne d] have p: "pushes ?s st'" .
    from False q have fq: "filter is_driver (queue st) = filter is_driver q" by simp
    have new: "\<And>y. y \<in> set (queue st') \<Longrightarrow> y \<in> set q \<or> (\<forall>z. ev y \<noteq> Driver_failed z)"
      using queue_dispatch_kinds [OF d ne] by simp
    have old: "\<And>y x. failure_ok A st y x \<Longrightarrow> failure_ok A st' y x"
      using p by (simp add: failure_ok_def pushes_def)
    have init: "\<And>y. y \<in> set (queue st') \<Longrightarrow> ev y = Init_driver \<Longrightarrow> y \<in> set q"
    proof -
      fix y assume y: "y \<in> set (queue st')" "ev y = Init_driver"
      then have "y \<in> set (filter is_driver (queue st'))" by (simp add: is_driver_def)
      with p fq have "y \<in> set (filter is_driver q)" by (simp add: pushes_def)
      then show "y \<in> set q" by simp
    qed
    show ?thesis
      unfolding failures_ok_def
    proof (intro conjI ballI allI impI)
      fix y x assume y: "y \<in> set (queue st')" "ev y = Driver_failed x"
      with new have "y \<in> set q" by blast
      with inv q y have "failure_ok A st y x" by (simp add: failures_ok_def)
      then show "failure_ok A st' y x" by (rule old)
    next
      fix y assume "y \<in> set (queue st')" "ev y = Init_driver"
      with init have "y \<in> set q" by blast
      with inv q \<open>ev y = Init_driver\<close> show "etime y = 0" by (simp add: failures_ok_def)
    next
      fix y x assume n: "filter is_driver (queue st') \<noteq> []" and y: "y \<in> set (queue st')"
      from n p fq have "filter is_driver (queue st) \<noteq> []" by (simp add: pushes_def)
      with inv have nf: "\<forall>e \<in> set (queue st). \<forall>x. ev e \<noteq> Driver_failed x"
        by (simp add: failures_ok_def)
      from new [OF y] show "ev y \<noteq> Driver_failed x"
      proof
        assume "y \<in> set q"
        with nf q show ?thesis by simp
      qed simp
    qed
  qed
qed

text \<open>When no row has a negative unloading delay, no ship raises.\<close>

definition cargo_ok :: "int \<Rightarrow> ship_frame \<Rightarrow> bool" where
  "cargo_ok ut f =
     (case f of
        Not_started n c \<Rightarrow> 0 \<le> c * ut
      | At_berth_request n c a \<Rightarrow> 0 \<le> c * ut
      | At_crane_request n c a d \<Rightarrow> 0 \<le> c * ut
      | Raised \<Rightarrow> False
      | _ \<Rightarrow> True)"

definition no_raise :: "int \<Rightarrow> sim_state \<Rightarrow> bool" where
  "no_raise ut st \<longleftrightarrow>
     (\<forall>f \<in> set (ships st). cargo_ok ut f) \<and>
     (\<forall>r \<in> set (rows st). 0 \<le> row_cargo_containers r * ut) \<and>
     (\<forall>r. pending st = Some r \<longrightarrow> 0 \<le> row_cargo_containers r * ut) \<and>
     (\<forall>e \<in> set (queue st). \<forall>p x. ev e \<noteq> Ship_failed p x)"

lemma no_raise_arrival_next: "no_raise ut st \<Longrightarrow> no_raise ut (arrival_next st)"
  by (auto simp: no_raise_def arrival_next_def Let_def split: list.splits)

lemma no_raise_spawn_ship:
  "no_raise ut st \<Longrightarrow> pending st = Some r \<Longrightarrow> no_raise ut (spawn_ship r st)"
  by (auto simp: no_raise_def cargo_ok_def dest!: queue_spawn_ship)

lemma no_raise_trigger_put:
  "no_raise ut st \<Longrightarrow> no_raise ut (berths_trigger_put st)"
  "no_raise ut st \<Longrightarrow> no_raise ut (cranes_trigger_put st)"
  by (auto simp: no_raise_def dest!: queue_trigger_put)

lemma no_raise_ship_start: "no_raise ut st \<Longrightarrow> no_raise ut (ship_start p st)"
proof (cases "frame_at st p")
  case None
  assume "no_raise ut st"
  with None show ?thesis by (simp add: ship_start_def)
next
  case (Some f)
  assume i: "no_raise ut st"
  with frame_at_mem [OF Some] have "cargo_ok ut f" by (simp add: no_raise_def)
  with i Some show ?thesis
    by (cases f)
       (auto simp: no_raise_def ship_start_def frame_defs
             dest!: in_set_update queue_request, auto simp: cargo_ok_def)
qed

lemma no_raise_ship_docked: "no_raise ut st \<Longrightarrow> no_raise ut (ship_docked p st)"
proof (cases "frame_at st p")
  case None
  assume "no_raise ut st"
  with None show ?thesis by (simp add: ship_docked_def)
next
  case (Some f)
  assume i: "no_raise ut st"
  with frame_at_mem [OF Some] have "cargo_ok ut f" by (simp add: no_raise_def)
  with i Some show ?thesis
    by (cases f)
       (auto simp: no_raise_def ship_docked_def frame_defs
             dest!: in_set_update queue_request, auto simp: cargo_ok_def)
qed

lemma no_raise_ship_crane_secured:
  "no_raise ut st \<Longrightarrow> no_raise ut (ship_crane_secured ut p st)"
proof (cases "frame_at st p")
  case None
  assume "no_raise ut st"
  with None show ?thesis by (simp add: ship_crane_secured_def)
next
  case (Some f)
  assume i: "no_raise ut st"
  with frame_at_mem [OF Some] have c: "cargo_ok ut f" by (simp add: no_raise_def)
  show ?thesis
  proof (cases f)
    case (At_crane_request n c0 a d)
    with c have pos: "\<not> c0 * ut < 0" by (simp add: cargo_ok_def)
    from i Some At_crane_request pos show ?thesis
      by (auto simp: no_raise_def ship_crane_secured_def frame_defs Let_def
            dest!: in_set_update, auto simp: cargo_ok_def)
  qed (use i Some in \<open>simp_all add: ship_crane_secured_def\<close>)
qed

lemma no_raise_ship_unloaded: "no_raise ut st \<Longrightarrow> no_raise ut (ship_unloaded p st)"
proof (cases "frame_at st p")
  case None
  assume "no_raise ut st"
  with None show ?thesis by (simp add: ship_unloaded_def)
next
  case (Some f)
  assume i: "no_raise ut st"
  with Some show ?thesis
    by (cases f)
       (auto simp: no_raise_def ship_unloaded_def frame_defs Let_def
             dest!: in_set_update queue_release, auto simp: cargo_ok_def)
qed

lemma no_raise_dispatch:
  "no_raise ut st \<Longrightarrow> dispatch ut e st = (x, st') \<Longrightarrow> no_raise ut st'"
  by (cases e)
     (auto simp: no_raise_arrival_next no_raise_spawn_ship no_raise_ship_start
        no_raise_ship_docked no_raise_ship_crane_secured no_raise_ship_unloaded
        no_raise_trigger_put split: option.splits)

lemma no_raise_step: "no_raise ut st \<Longrightarrow> step ut st = (x, st') \<Longrightarrow> no_raise ut st'"
proof (cases "queue st")
  case Nil
  assume "no_raise ut st" "step ut st = (x, st')"
  with Nil show ?thesis by (simp add: step_def)
next
  case (Cons e q)
  assume i: "no_raise ut st" and s: "step ut st = (x, st')"
  from i Cons have "no_raise ut (st\<lparr>now := etime e, queue := q\<rparr>)" by (simp add: no_raise_def)
  with s Cons show ?thesis by (auto simp: step_def intro: no_raise_dispatch)
qed

text \<open>The stop event stays in the queue until it is processed.\<close>

definition has_until :: "sim_state \<Rightarrow> bool" where
  "has_until st \<longleftrightarrow> (\<exists>e \<in> set (queue st). ev e = Until)"

lemma queue_mono_arrival_next: "y \<in> set (queue st) \<Longrightarrow> y \<in> set (queue (arrival_next st))"
  by (simp add: arrival_next_def Let_def split: list.splits)

lemma queue_mono_dispatch:
  assumes "dispatch ut e st = (x, st')" and "y \<in> set (queue st)"
  shows "y \<in> set (queue st')"
proof (cases "e = Init_driver \<or> e = Arrival_timeout")
  case True
  with assms show ?thesis
    by (auto simp: queue_mono_arrival_next spawn_ship_def split: option.splits)
next
  case False
  with pushes_dispatch [OF _ _ assms(1)] assms(2) show ?thesis by (auto simp: pushes_def)
qed

lemma has_until_step: "has_until st \<Longrightarrow> step ut st = (Continue, st') \<Longrightarrow> has_until st'"
proof -
  assume h: "has_until st" and s: "step ut st = (Continue, st')"
  from step_Continue [OF s] obtain e q where q: "queue st = e # q"
    and d: "dispatch ut (ev e) (st\<lparr>now := etime e, queue := q\<rparr>) = (Continue, st')"
    by blast
  from d have "ev e \<noteq> Until" by auto
  with h q obtain u where u: "u \<in> set q" "ev u = Until" by (auto simp: has_until_def)
  from queue_mono_dispatch [OF d] u(1) have "u \<in> set (queue st')" by simp
  with u show ?thesis by (auto simp: has_until_def)
qed

definition start_state :: "int \<Rightarrow> int \<Rightarrow> arrival_row list \<Rightarrow> int \<Rightarrow> sim_state" where
  "start_state nb nc A h =
     schedule Until URGENT (h - 0) (schedule Init_driver URGENT 0 (new_environment nb nc A []))"

lemma run_state_started:
  assumes "0 < nb" "0 < nc" "simulation_runtime A = Some h" "0 < h"
  shows "run_state nb nc ut A rd = run_loop ut (start_state nb nc A h)"
  using assms by (simp add: run_state_def Let_def clear_def env_run_def start_state_def)

lemma horizon_positive:
  assumes "A \<noteq> []" and "\<forall>r \<in> set A. 0 \<le> row_arrival_time_minutes r"
  shows "\<exists>h. simulation_runtime A = Some h \<and> 0 < h \<and>
             (\<forall>r \<in> set A. row_arrival_time_minutes r < h)"
proof -
  from assms(1) obtain x xs where A: "A = x # xs" by (cases A) auto
  let ?m = "fold max (map row_arrival_time_minutes xs) (row_arrival_time_minutes x)"
  have m: "column_max (times A) = Some ?m" by (simp add: A column_max_def times_def)
  from column_max_ge [OF m] have le: "\<forall>r \<in> set A. row_arrival_time_minutes r \<le> ?m"
    by (auto simp: times_def)
  with assms(2) A have "0 \<le> ?m" by fastforce
  with le m show ?thesis by (auto simp: simulation_runtime_def times_def)
qed

definition started :: "int \<Rightarrow> arrival_row list \<Rightarrow> int \<Rightarrow> sim_state \<Rightarrow> bool" where
  "started ut A h st \<longleftrightarrow> invariant ut A h st \<and> failures_ok A st \<and> has_until st"

lemma started_start:
  assumes "0 < h"
  shows "started ut A h (start_state nb nc A h)"
proof -
  let ?i = "\<lparr>etime = 0, eprio = URGENT, eid = 0, ev = Init_driver\<rparr>"
  let ?u = "\<lparr>etime = h, eprio = URGENT, eid = Suc 0, ev = Until\<rparr>"
  from assms have q: "queue (start_state nb nc A h) = [?i, ?u]"
    by (simp add: start_state_def before_def)
  have "failures_ok A (start_state nb nc A h)" "has_until (start_state nb nc A h)"
    unfolding failures_ok_def has_until_def by (simp_all only: q) simp_all
  with invariant_start [OF assms, of ut A nb nc] show ?thesis
    by (simp add: started_def start_state_def)
qed

lemma started_step:
  assumes "started ut A h st" and "\<forall>r \<in> set A. row_arrival_time_minutes r < h"
    and "step ut st = (Continue, st')"
  shows "started ut A h st'"
  using assms invariant_step [of ut A h st st'] failures_ok_step [of A h st ut st']
    has_until_step [of st ut st']
  by (simp add: started_def invariant_def)

lemma no_raise_start:
  "\<forall>r \<in> set A. 0 \<le> row_cargo_containers r * ut \<Longrightarrow> no_raise ut (start_state nb nc A h)"
  by (auto simp: no_raise_def start_state_def)

text \<open>The exception of a run over an unsorted table, when the port can be built, no row
  has a negative time and no row a negative unloading delay.\<close>

definition fails_at_descent :: "arrival_row list \<Rightarrow> error option \<times> sim_state \<Rightarrow> bool" where
  "fails_at_descent A r \<longleftrightarrow>
     (\<exists>pre a b post.
        A = pre @ a # b # post \<and> sorted (map row_arrival_time_minutes (pre @ [a])) \<and>
        row_arrival_time_minutes b < row_arrival_time_minutes a \<and>
        fst r = Some (Negative_delay (row_arrival_time_minutes b - row_arrival_time_minutes a)) \<and>
        now (snd r) = row_arrival_time_minutes a \<and> length (ships (snd r)) = Suc (length pre))"

lemma unsorted_run_loop:
  assumes uns: "\<not> sorted (times A)"
    and hor: "\<forall>r \<in> set A. row_arrival_time_minutes r < h"
    and pos: "\<forall>r \<in> set A. 0 \<le> row_arrival_time_minutes r"
    and st: "started ut A h st" and nr: "no_raise ut st"
  shows "fails_at_descent A (run_loop ut st)"
proof (rule run_loop_rule [where I = "\<lambda>s. started ut A h s \<and> no_raise ut s"
        and Q = "fails_at_descent A"])
  from st nr show "started ut A h st \<and> no_raise ut st" by simp
next
  fix s s' assume "started ut A h s \<and> no_raise ut s" "step ut s = (Continue, s')"
  with hor show "started ut A h s' \<and> no_raise ut s'"
    by (auto intro: started_step no_raise_step)
next
  fix s s' assume i: "started ut A h s \<and> no_raise ut s" and s: "step ut s = (Stop, s')"
  from i have "driver_ok A h s" "clock_ok s" "until_ok h s"
    by (simp_all add: started_def invariant_def)
  from stop_sorted [OF this s] uns show "fails_at_descent A (None, s')" by simp
next
  fix s s' x assume i: "started ut A h s \<and> no_raise ut s" and s: "step ut s = (Crash x, s')"
  from i have hu: "has_until s" and f: "failures_ok A s" and n: "no_raise ut s"
    and c: "count_ok (length A) s"
    by (simp_all add: started_def invariant_def)
  from step_Crash [OF s] hu obtain e q where q: "queue s = e # q"
    and s': "s' = s\<lparr>now := etime e, queue := q\<rparr>"
    and e: "ev e = Driver_failed x \<or> (\<exists>p. ev e = Ship_failed p x)"
    by (auto simp: has_until_def)
  from n q e have "ev e = Driver_failed x" by (auto simp: no_raise_def)
  with f q have fo: "failure_ok A s e x" by (simp add: failures_ok_def)
  from pos have "\<And>r post. A = r # post \<Longrightarrow> \<not> row_arrival_time_minutes r < 0" by fastforce
  with fo obtain pre a b post where A: "A = pre @ a # b # post" and r: "rows s = b # post"
    and p: "pending s = None" and srt: "sorted (times (pre @ [a]))"
    and lt: "row_arrival_time_minutes b < row_arrival_time_minutes a"
    and x: "x = Negative_delay (row_arrival_time_minutes b - row_arrival_time_minutes a)"
    and t: "etime e = row_arrival_time_minutes a"
    unfolding failure_ok_def by blast
  from c r p A have "length (ships s) = Suc (length pre)"
    by (simp add: count_ok_def not_spawned_def)
  with A srt lt x t show "fails_at_descent A (Some x, s')"
    unfolding fails_at_descent_def s' times_def by fastforce
qed

text \<open>
  The order of the heap is strict and total on the entries of the queue, since each entry
  has its own \<open>eid\<close>.
\<close>

lemma before_trans: "before x y \<Longrightarrow> before y z \<Longrightarrow> before x z"
  by (auto simp: before_def)

lemma before_total: "eid x \<noteq> eid y \<Longrightarrow> before x y \<or> before y x"
  by (auto simp: before_def)

lemma before_asym: "before x y \<Longrightarrow> \<not> before y x"
  by (auto simp: before_def)

definition strict_ok :: "sim_state \<Rightarrow> bool" where
  "strict_ok st \<longleftrightarrow>
     sorted_wrt before (queue st) \<and> (\<forall>e \<in> set (queue st). eid e < next_eid st)"

lemma sorted_wrt_heappush:
  "sorted_wrt before q \<Longrightarrow> \<forall>y \<in> set q. eid y \<noteq> eid x \<Longrightarrow> sorted_wrt before (heappush x q)"
proof (induction q)
  case Nil
  show ?case by simp
next
  case (Cons y ys)
  show ?case
  proof (cases "before x y")
    case True
    with Cons.prems show ?thesis by (auto intro: before_trans)
  next
    case False
    with Cons.prems before_total [of x y] have "before y x" by auto
    with False Cons show ?thesis by auto
  qed
qed

lemma strict_ok_schedule: "strict_ok st \<Longrightarrow> strict_ok (schedule e p d st)"
  by (auto simp: strict_ok_def intro!: sorted_wrt_heappush)

lemma strict_ok_update:
  "strict_ok st \<Longrightarrow> queue st' = queue st \<Longrightarrow> next_eid st' = next_eid st \<Longrightarrow> strict_ok st'"
  by (simp add: strict_ok_def)

lemma strict_ok_trigger_put:
  "strict_ok st \<Longrightarrow> strict_ok (berths_trigger_put st)"
  "strict_ok st \<Longrightarrow> strict_ok (cranes_trigger_put st)"
  by (auto simp: berths_trigger_put_def cranes_trigger_put_def split: prod.splits option.splits
        intro!: strict_ok_schedule elim: strict_ok_update)

lemma strict_ok_request:
  "strict_ok st \<Longrightarrow> strict_ok (berths_request p st)"
  "strict_ok st \<Longrightarrow> strict_ok (cranes_request p st)"
  by (auto simp: berths_request_def cranes_request_def
        intro!: strict_ok_trigger_put elim: strict_ok_update)

lemma strict_ok_release:
  "strict_ok st \<Longrightarrow> strict_ok (berths_release p st)"
  "strict_ok st \<Longrightarrow> strict_ok (cranes_release p st)"
  by (auto simp: berths_release_def cranes_release_def
        intro!: strict_ok_schedule elim: strict_ok_update)

lemma strict_ok_frame:
  "strict_ok st \<Longrightarrow> strict_ok (set_frame p f st)"
  "strict_ok st \<Longrightarrow> strict_ok (log a st)"
  "strict_ok st \<Longrightarrow> strict_ok (emit d st)"
  by (auto simp: frame_defs elim: strict_ok_update)

lemma strict_ok_arrival_next: "strict_ok st \<Longrightarrow> strict_ok (arrival_next st)"
  by (auto simp: arrival_next_def Let_def split: list.splits
        intro!: strict_ok_schedule elim: strict_ok_update)

lemma strict_ok_spawn_ship: "strict_ok st \<Longrightarrow> strict_ok (spawn_ship r st)"
  by (auto simp: spawn_ship_def intro!: strict_ok_schedule elim: strict_ok_update)

lemma strict_ok_ship_start: "strict_ok st \<Longrightarrow> strict_ok (ship_start p st)"
  by (auto simp: ship_start_def split: option.splits ship_frame.splits
        intro!: strict_ok_request strict_ok_frame)

lemma strict_ok_ship_docked: "strict_ok st \<Longrightarrow> strict_ok (ship_docked p st)"
  by (auto simp: ship_docked_def split: option.splits ship_frame.splits
        intro!: strict_ok_request strict_ok_frame)

lemma strict_ok_ship_crane_secured: "strict_ok st \<Longrightarrow> strict_ok (ship_crane_secured ut p st)"
  by (auto simp: ship_crane_secured_def Let_def split: option.splits ship_frame.splits
        intro!: strict_ok_schedule strict_ok_release strict_ok_frame)

lemma strict_ok_ship_unloaded: "strict_ok st \<Longrightarrow> strict_ok (ship_unloaded p st)"
  by (auto simp: ship_unloaded_def Let_def split: option.splits ship_frame.splits
        intro!: strict_ok_schedule strict_ok_release strict_ok_frame)

lemma strict_ok_dispatch:
  "strict_ok st \<Longrightarrow> dispatch ut e st = (x, st') \<Longrightarrow> strict_ok st'"
  by (cases e)
     (auto simp: strict_ok_arrival_next strict_ok_spawn_ship strict_ok_ship_start
        strict_ok_ship_docked strict_ok_ship_crane_secured strict_ok_ship_unloaded
        strict_ok_trigger_put split: option.splits)

lemma strict_ok_step: "strict_ok st \<Longrightarrow> step ut st = (x, st') \<Longrightarrow> strict_ok st'"
proof (cases "queue st")
  case Nil
  assume "strict_ok st" "step ut st = (x, st')"
  with Nil show ?thesis by (simp add: step_def)
next
  case (Cons e q)
  assume i: "strict_ok st" and s: "step ut st = (x, st')"
  from i Cons have "strict_ok (st\<lparr>now := etime e, queue := q\<rparr>)" by (simp add: strict_ok_def)
  with s Cons show ?thesis by (auto simp: step_def intro: strict_ok_dispatch)
qed

text \<open>
  The run with the heap taken as it is specified: \<open>heappop\<close> returns an entry that no other
  entry of the queue precedes, whichever it is. Every function above takes the head of the
  ordered list instead; the two agree, since the order is strict on the queue.
\<close>

definition least :: "entry list \<Rightarrow> entry \<Rightarrow> bool" where
  "least q e \<longleftrightarrow> e \<in> set q \<and> (\<forall>y \<in> set q. \<not> before y e)"

definition heap_step :: "int \<Rightarrow> sim_state \<Rightarrow> status \<times> sim_state \<Rightarrow> bool" where
  "heap_step ut st r \<longleftrightarrow>
     queue st = [] \<and> r = (Crash Empty_schedule, st) \<or>
     (\<exists>e. least (queue st) e \<and>
          r = dispatch ut (ev e) (st\<lparr>now := etime e, queue := remove1 e (queue st)\<rparr>))"

inductive heap_run :: "int \<Rightarrow> sim_state \<Rightarrow> error option \<times> sim_state \<Rightarrow> bool"
  for ut :: int
where
  continue: "heap_step ut st (Continue, st') \<Longrightarrow> heap_run ut st' r \<Longrightarrow> heap_run ut st r"
| stop: "heap_step ut st (Stop, st') \<Longrightarrow> heap_run ut st (None, st')"
| crash: "heap_step ut st (Crash x, st') \<Longrightarrow> heap_run ut st (Some x, st')"

definition heap_env_run ::
  "int \<Rightarrow> int option \<Rightarrow> sim_state \<Rightarrow> error option \<times> sim_state \<Rightarrow> bool" where
  "heap_env_run ut until st r \<longleftrightarrow>
     (case until of
        None \<Rightarrow>
          (\<exists>x st'. heap_step ut st (x, st') \<and>
                   r = (case x of Crash e \<Rightarrow> (Some e, st') | _ \<Rightarrow> (None, st')))
      | Some at \<Rightarrow>
          if at \<le> now st then r = (Some Bad_until, st)
          else heap_run ut (schedule Until URGENT (at - now st) st) r)"

definition heap_run_simulation ::
  "int \<Rightarrow> int \<Rightarrow> int \<Rightarrow> arrival_row list \<Rightarrow> ship_data list
     \<Rightarrow> error option \<times> ship_data list \<Rightarrow> bool" where
  "heap_run_simulation num_berths num_cranes unload_time arrivals results r \<longleftrightarrow>
     (\<exists>r'. r = map_prod id results_data r' \<and>
        (let st0 = new_environment num_berths num_cranes arrivals (clear results) in
         if num_berths \<le> 0 \<or> num_cranes \<le> 0 then r' = (Some Bad_capacity, st0)
         else heap_env_run unload_time (simulation_runtime arrivals)
                (schedule Init_driver URGENT 0 st0) r'))"

lemma least_head:
  assumes "sorted_wrt before (e # q)"
  shows "least (e # q) e' \<longleftrightarrow> e' = e"
proof
  assume l: "least (e # q) e'"
  show "e' = e"
  proof (rule ccontr)
    assume "e' \<noteq> e"
    with l have "e' \<in> set q" by (simp add: least_def)
    with assms have "before e e'" by simp
    with l show False by (simp add: least_def)
  qed
next
  assume e: "e' = e"
  have "\<not> before y e" if "y \<in> set (e # q)" for y
  proof (cases "y = e")
    case True
    with before_asym [of e e] show ?thesis by blast
  next
    case False
    with that assms have "before e y" by simp
    then show ?thesis by (rule before_asym)
  qed
  with e show "least (e # q) e'" by (simp add: least_def)
qed

lemma heap_step_unique:
  assumes "strict_ok st"
  shows "heap_step ut st r \<longleftrightarrow> r = step ut st"
proof (cases "queue st")
  case Nil
  then show ?thesis by (auto simp: heap_step_def step_def least_def)
next
  case (Cons e q)
  with assms have "sorted_wrt before (e # q)" by (simp add: strict_ok_def)
  from least_head [OF this] Cons show ?thesis by (simp add: heap_step_def step_def)
qed

lemma heap_run_unique:
  "heap_run ut st r \<Longrightarrow> strict_ok st \<Longrightarrow> r = run_loop ut st"
proof (induction rule: heap_run.induct)
  case (continue st st' r)
  from continue.hyps(1) continue.prems have s: "step ut st = (Continue, st')"
    by (simp add: heap_step_unique)
  with continue.prems have "strict_ok st'" by (rule strict_ok_step)
  with continue.IH s show ?case by (simp add: run_loop.simps [of ut st])
next
  case (stop st st')
  then have "step ut st = (Stop, st')" by (simp add: heap_step_unique)
  then show ?case by (simp add: run_loop.simps [of ut st])
next
  case (crash st x st')
  then have "step ut st = (Crash x, st')" by (simp add: heap_step_unique)
  then show ?case by (simp add: run_loop.simps [of ut st])
qed

lemma heap_run_exists: "strict_ok st \<Longrightarrow> heap_run ut st (run_loop ut st)"
proof (induction "potential st" arbitrary: st rule: less_induct)
  case less
  obtain x s' where s: "step ut st = (x, s')" by (cases "step ut st")
  with less.prems have h: "heap_step ut st (x, s')" by (simp add: heap_step_unique)
  show ?case
  proof (cases x)
    case Continue
    with s have "potential s' < potential st" by (simp add: step_potential)
    moreover from less.prems s have "strict_ok s'" by (rule strict_ok_step)
    ultimately have "heap_run ut s' (run_loop ut s')" by (rule less.hyps)
    with h Continue have "heap_run ut st (run_loop ut s')" by (auto intro: heap_run.continue)
    with s Continue show ?thesis by (simp add: run_loop.simps [of ut st])
  next
    case Stop
    with h s show ?thesis by (auto simp: run_loop.simps [of ut st] intro: heap_run.stop)
  next
    case (Crash e)
    with h s show ?thesis by (auto simp: run_loop.simps [of ut st] intro: heap_run.crash)
  qed
qed

lemma heap_env_run_unique:
  assumes "strict_ok st"
  shows "heap_env_run ut until st r \<longleftrightarrow> r = env_run ut until st"
proof (cases until)
  case None
  with assms show ?thesis
    by (auto simp: heap_env_run_def env_run_def heap_step_unique
          split: prod.splits status.splits)
next
  case (Some at)
  let ?s = "schedule Until URGENT (at - now st) st"
  from assms have ok: "strict_ok ?s" by (rule strict_ok_schedule)
  have "heap_run ut ?s r \<longleftrightarrow> r = run_loop ut ?s"
    using heap_run_unique [OF _ ok] heap_run_exists [OF ok] by blast
  with Some show ?thesis by (simp add: heap_env_run_def env_run_def)
qed

lemma strict_ok_new_environment: "strict_ok (new_environment nb nc A rs)"
  by (simp add: strict_ok_def)

lemma heap_run_simulation_unique:
  "heap_run_simulation nb nc ut A rd r \<longleftrightarrow> r = run_simulation nb nc ut A rd"
proof -
  let ?s0 = "new_environment nb nc A (clear rd)"
  have ok: "strict_ok (schedule Init_driver URGENT 0 ?s0)"
    by (simp add: strict_ok_schedule strict_ok_new_environment)
  have "heap_run_simulation nb nc ut A rd r \<longleftrightarrow>
        (\<exists>r'. r = map_prod id results_data r' \<and> r' = run_state nb nc ut A rd)"
    unfolding heap_run_simulation_def run_state_def Let_def
    by (simp add: heap_env_run_unique [OF ok])
  also have "\<dots> \<longleftrightarrow> r = map_prod id results_data (run_state nb nc ut A rd)" by blast
  finally show ?thesis by (simp add: run_simulation_def)
qed

text \<open>
  Where every ship stands: which of its events are in the queue and which lists of the two
  resources hold it.
\<close>

definition ok_view ::
  "bool \<Rightarrow> bool \<Rightarrow> bool \<Rightarrow> bool \<Rightarrow> bool \<Rightarrow> bool \<Rightarrow> bool \<Rightarrow> bool \<Rightarrow> ship_frame \<Rightarrow> bool" where
  "ok_view i rb rc u ub qb uc qc f =
     (case f of
        Not_started n k \<Rightarrow> i \<and> \<not> rb \<and> \<not> rc \<and> \<not> ub \<and> \<not> qb \<and> \<not> uc \<and> \<not> qc
      | At_berth_request n k a \<Rightarrow> \<not> rc \<and> \<not> uc \<and> \<not> qc \<and> ub = rb \<and> qb = (\<not> rb)
      | At_crane_request n k a d \<Rightarrow> ub \<and> \<not> qb \<and> uc = rc \<and> qc = (\<not> rc)
      | At_unload_timeout n k a d s \<Rightarrow> ub \<and> \<not> qb \<and> uc \<and> \<not> qc \<and> u
      | _ \<Rightarrow> \<not> ub \<and> \<not> qb \<and> \<not> uc \<and> \<not> qc)"

definition ok_ship :: "event set \<Rightarrow> resource \<Rightarrow> resource \<Rightarrow> nat \<Rightarrow> ship_frame \<Rightarrow> bool" where
  "ok_ship E b c q f =
     ok_view (Init_ship q \<in> E) (Berth_request q \<in> E) (Crane_request q \<in> E)
       (Unload_timeout q \<in> E)
       (q \<in> set (users b)) (q \<in> set (put_queue b))
       (q \<in> set (users c)) (q \<in> set (put_queue c)) f"

definition known :: "event set \<Rightarrow> resource \<Rightarrow> resource \<Rightarrow> nat \<Rightarrow> bool" where
  "known E b c q \<longleftrightarrow>
     q \<in> set (users b) \<or> q \<in> set (put_queue b) \<or> q \<in> set (users c) \<or> q \<in> set (put_queue c) \<or>
     Init_ship q \<in> E \<or> Berth_request q \<in> E \<or> Crane_request q \<in> E \<or> Unload_timeout q \<in> E"

definition statusP :: "event set \<Rightarrow> ship_frame list \<Rightarrow> resource \<Rightarrow> resource \<Rightarrow> bool" where
  "statusP E fs b c \<longleftrightarrow>
     (\<forall>q < length fs. ok_ship E b c q (fs ! q)) \<and>
     (\<forall>q. known E b c q \<longrightarrow> q < length fs) \<and>
     distinct (users b) \<and> distinct (put_queue b) \<and>
     distinct (users c) \<and> distinct (put_queue c)"

lemma statusP_start:
  assumes s: "statusP (insert (Init_ship p) E) fs b c"
    and p: "p < length fs" "fs ! p = Not_started n k"
  shows "statusP E (fs[p := At_berth_request n k a]) (b\<lparr>put_queue := put_queue b @ [p]\<rparr>) c"
proof -
  from s p have op: "ok_ship (insert (Init_ship p) E) b c p (Not_started n k)"
    by (auto simp: statusP_def)
  have "ok_ship E (b\<lparr>put_queue := put_queue b @ [p]\<rparr>) c q ((fs[p := At_berth_request n k a]) ! q)"
    if q: "q < length fs" for q
  proof (cases "q = p")
    case True
    with op p show ?thesis by (simp add: ok_ship_def ok_view_def)
  next
    case False
    from s q have "ok_ship (insert (Init_ship p) E) b c q (fs ! q)" by (simp add: statusP_def)
    with False show ?thesis by (simp add: ok_ship_def)
  qed
  moreover have "\<forall>q. known E (b\<lparr>put_queue := put_queue b @ [p]\<rparr>) c q \<longrightarrow> q < length fs"
    using s p by (auto simp: statusP_def known_def)
  moreover from op have "p \<notin> set (put_queue b)" by (simp add: ok_ship_def ok_view_def)
  ultimately show ?thesis using s by (simp add: statusP_def)
qed

lemma statusP_docked:
  assumes s: "statusP (insert (Berth_request p) E) fs b c"
    and p: "p < length fs" "fs ! p = At_berth_request n k a"
  shows "statusP E (fs[p := At_crane_request n k a d]) b (c\<lparr>put_queue := put_queue c @ [p]\<rparr>)"
proof -
  from s p have op: "ok_ship (insert (Berth_request p) E) b c p (At_berth_request n k a)"
    by (auto simp: statusP_def)
  have "ok_ship E b (c\<lparr>put_queue := put_queue c @ [p]\<rparr>) q ((fs[p := At_crane_request n k a d]) ! q)"
    if q: "q < length fs" for q
  proof (cases "q = p")
    case True
    with op p show ?thesis by (simp add: ok_ship_def ok_view_def)
  next
    case False
    from s q have "ok_ship (insert (Berth_request p) E) b c q (fs ! q)" by (simp add: statusP_def)
    with False show ?thesis by (simp add: ok_ship_def)
  qed
  moreover have "\<forall>q. known E b (c\<lparr>put_queue := put_queue c @ [p]\<rparr>) q \<longrightarrow> q < length fs"
    using s p by (auto simp: statusP_def known_def)
  moreover from op have "p \<notin> set (put_queue c)" by (simp add: ok_ship_def ok_view_def)
  ultimately show ?thesis using s by (simp add: statusP_def)
qed

lemma statusP_secured:
  assumes s: "statusP (insert (Crane_request p) E) fs b c"
    and p: "p < length fs" "fs ! p = At_crane_request n k a d"
  shows "statusP (insert (Unload_timeout p) E) (fs[p := At_unload_timeout n k a d t]) b c"
proof -
  from s p have op: "ok_ship (insert (Crane_request p) E) b c p (At_crane_request n k a d)"
    by (auto simp: statusP_def)
  have "ok_ship (insert (Unload_timeout p) E) b c q ((fs[p := At_unload_timeout n k a d t]) ! q)"
    if q: "q < length fs" for q
  proof (cases "q = p")
    case True
    with op p show ?thesis by (simp add: ok_ship_def ok_view_def)
  next
    case False
    from s q have "ok_ship (insert (Crane_request p) E) b c q (fs ! q)" by (simp add: statusP_def)
    with False show ?thesis by (simp add: ok_ship_def)
  qed
  moreover have "\<forall>q. known (insert (Unload_timeout p) E) b c q \<longrightarrow> q < length fs"
    using s p by (auto simp: statusP_def known_def)
  ultimately show ?thesis using s by (simp add: statusP_def)
qed

lemma statusP_unloaded:
  assumes s: "statusP (insert (Unload_timeout p) E) fs b c"
    and p: "p < length fs" "fs ! p = At_unload_timeout n k a d t"
  shows "statusP E (fs[p := Returned]) (b\<lparr>users := remove1 p (users b)\<rparr>)
           (c\<lparr>users := remove1 p (users c)\<rparr>)"
proof -
  from s have d: "distinct (users b)" "distinct (users c)" by (simp_all add: statusP_def)
  from s p have op: "ok_ship (insert (Unload_timeout p) E) b c p (At_unload_timeout n k a d t)"
    by (auto simp: statusP_def)
  have "ok_ship E (b\<lparr>users := remove1 p (users b)\<rparr>) (c\<lparr>users := remove1 p (users c)\<rparr>) q
          ((fs[p := Returned]) ! q)"
    if q: "q < length fs" for q
  proof (cases "q = p")
    case True
    with op p d show ?thesis by (simp add: ok_ship_def ok_view_def)
  next
    case False
    from s q have "ok_ship (insert (Unload_timeout p) E) b c q (fs ! q)" by (simp add: statusP_def)
    with False d show ?thesis by (simp add: ok_ship_def)
  qed
  moreover have "\<forall>q. known E (b\<lparr>users := remove1 p (users b)\<rparr>) (c\<lparr>users := remove1 p (users c)\<rparr>) q
                   \<longrightarrow> q < length fs"
    using s p d by (auto simp: statusP_def known_def)
  ultimately show ?thesis using s by (simp add: statusP_def)
qed

lemma statusP_spawn:
  assumes s: "statusP E fs b c"
  shows "statusP (insert (Init_ship (length fs)) E) (fs @ [Not_started n k]) b c"
proof -
  from s have nk: "\<not> known E b c (length fs)" by (auto simp: statusP_def)
  have "ok_ship (insert (Init_ship (length fs)) E) b c q ((fs @ [Not_started n k]) ! q)"
    if q: "q < length (fs @ [Not_started n k])" for q
  proof (cases "q = length fs")
    case True
    with nk show ?thesis by (simp add: ok_ship_def ok_view_def known_def)
  next
    case False
    with q have ql: "q < length fs" by simp
    with s have "ok_ship E b c q (fs ! q)" by (simp add: statusP_def)
    with False ql show ?thesis by (simp add: ok_ship_def nth_append)
  qed
  moreover have "\<forall>q. known (insert (Init_ship (length fs)) E) b c q
                   \<longrightarrow> q < length (fs @ [Not_started n k])"
    using s by (auto simp: statusP_def known_def less_Suc_eq)
  ultimately show ?thesis using s by (simp add: statusP_def)
qed

lemma statusP_grant_berth:
  assumes s: "statusP E fs b c" and h: "put_queue b = h # t"
  shows "statusP (insert (Berth_request h) E) fs (b\<lparr>users := users b @ [h], put_queue := t\<rparr>) c"
proof -
  from s h have hl: "h < length fs" by (auto simp: statusP_def known_def)
  with s have oh: "ok_ship E b c h (fs ! h)" by (simp add: statusP_def)
  from s h have ht: "h \<notin> set t" by (simp add: statusP_def)
  from oh h have fh: "Berth_request h \<notin> E \<and> h \<notin> set (users b) \<and>
      (\<exists>n k a. fs ! h = At_berth_request n k a)"
    by (cases "fs ! h") (auto simp: ok_ship_def ok_view_def)
  have "ok_ship (insert (Berth_request h) E) (b\<lparr>users := users b @ [h], put_queue := t\<rparr>) c q
          (fs ! q)"
    if q: "q < length fs" for q
  proof (cases "q = h")
    case True
    with oh fh ht h show ?thesis by (auto simp: ok_ship_def ok_view_def)
  next
    case False
    from s q have "ok_ship E b c q (fs ! q)" by (simp add: statusP_def)
    with False h show ?thesis by (simp add: ok_ship_def)
  qed
  moreover have "\<forall>q. known (insert (Berth_request h) E)
                     (b\<lparr>users := users b @ [h], put_queue := t\<rparr>) c q \<longrightarrow> q < length fs"
    using s h hl by (auto simp: statusP_def known_def)
  ultimately show ?thesis using s h fh by (simp add: statusP_def)
qed

lemma statusP_grant_crane:
  assumes s: "statusP E fs b c" and h: "put_queue c = h # t"
  shows "statusP (insert (Crane_request h) E) fs b (c\<lparr>users := users c @ [h], put_queue := t\<rparr>)"
proof -
  from s h have hl: "h < length fs" by (auto simp: statusP_def known_def)
  with s have oh: "ok_ship E b c h (fs ! h)" by (simp add: statusP_def)
  from s h have ht: "h \<notin> set t" by (simp add: statusP_def)
  from oh h have fh: "Crane_request h \<notin> E \<and> h \<notin> set (users c) \<and>
      (\<exists>n k a d. fs ! h = At_crane_request n k a d)"
    by (cases "fs ! h") (auto simp: ok_ship_def ok_view_def)
  have "ok_ship (insert (Crane_request h) E) b (c\<lparr>users := users c @ [h], put_queue := t\<rparr>) q
          (fs ! q)"
    if q: "q < length fs" for q
  proof (cases "q = h")
    case True
    with oh fh ht h show ?thesis by (auto simp: ok_ship_def ok_view_def)
  next
    case False
    from s q have "ok_ship E b c q (fs ! q)" by (simp add: statusP_def)
    with False h show ?thesis by (simp add: ok_ship_def)
  qed
  moreover have "\<forall>q. known (insert (Crane_request h) E) b
                     (c\<lparr>users := users c @ [h], put_queue := t\<rparr>) q \<longrightarrow> q < length fs"
    using s h hl by (auto simp: statusP_def known_def)
  ultimately show ?thesis using s h fh by (simp add: statusP_def)
qed

fun ship_event :: "event \<Rightarrow> bool" where
  "ship_event (Init_ship p) = True"
| "ship_event (Berth_request p) = True"
| "ship_event (Crane_request p) = True"
| "ship_event (Unload_timeout p) = True"
| "ship_event e = False"

lemma statusP_insert [simp]:
  assumes "\<not> ship_event x"
  shows "statusP (insert x E) fs b c = statusP E fs b c"
proof -
  from assms have "\<And>q. Init_ship q \<noteq> x \<and> Berth_request q \<noteq> x \<and> Crane_request q \<noteq> x \<and>
      Unload_timeout q \<noteq> x"
    by (cases x) auto
  then show ?thesis by (simp add: statusP_def ok_ship_def known_def)
qed

lemma statusP_drop:
  assumes s: "statusP (insert x E) fs b c"
    and x: "\<And>p n k. x = Init_ship p \<Longrightarrow> p < length fs \<Longrightarrow> fs ! p \<noteq> Not_started n k"
      "\<And>p n k a. x = Berth_request p \<Longrightarrow> p < length fs \<Longrightarrow> fs ! p \<noteq> At_berth_request n k a"
      "\<And>p n k a d. x = Crane_request p \<Longrightarrow> p < length fs \<Longrightarrow> fs ! p \<noteq> At_crane_request n k a d"
      "\<And>p n k a d t. x = Unload_timeout p \<Longrightarrow> p < length fs \<Longrightarrow>
         fs ! p \<noteq> At_unload_timeout n k a d t"
  shows "statusP E fs b c"
proof -
  have "ok_ship E b c q (fs ! q)" if q: "q < length fs" for q
  proof -
    from s q have o: "ok_ship (insert x E) b c q (fs ! q)" by (simp add: statusP_def)
    show ?thesis
    proof (cases "Init_ship q = x \<or> Berth_request q = x \<or> Crane_request q = x \<or>
                  Unload_timeout q = x")
      case False
      with o show ?thesis by (simp add: ok_ship_def)
    next
      case True
      with o x q show ?thesis
        by (cases "fs ! q") (auto simp: ok_ship_def ok_view_def)
    qed
  qed
  moreover from s have "\<forall>q. known E b c q \<longrightarrow> q < length fs"
    by (auto simp: statusP_def known_def)
  ultimately show ?thesis using s by (simp add: statusP_def)
qed

definition evs :: "sim_state \<Rightarrow> event set" where
  "evs st = ev ` set (queue st)"

definition status_ok :: "sim_state \<Rightarrow> bool" where
  "status_ok st \<longleftrightarrow> statusP (evs st) (ships st) (berths st) (cranes st)"

lemma evs_schedule [simp]: "evs (schedule x p d st) = insert x (evs st)"
  by (simp add: evs_def)

lemma evs_frame [simp]:
  "evs (set_frame p f st) = evs st" "evs (log a st) = evs st" "evs (emit r st) = evs st"
  by (simp_all add: evs_def frame_defs)

lemma status_ok_berths_trigger_put:
  assumes "status_ok st"
  shows "status_ok (berths_trigger_put st)"
proof (cases "trigger_put (berths st)")
  case (Pair r g)
  show ?thesis
  proof (cases g)
    case None
    with Pair have "r = berths st"
      by (auto simp: trigger_put_def split: list.splits if_splits)
    with Pair None assms show ?thesis
      by (simp add: berths_trigger_put_def status_ok_def evs_def)
  next
    case (Some h)
    with Pair obtain t where pq: "put_queue (berths st) = h # t"
      and r: "r = (berths st)\<lparr>users := users (berths st) @ [h], put_queue := t\<rparr>"
      by (auto simp: trigger_put_def split: list.splits if_splits)
    from statusP_grant_berth [OF assms [unfolded status_ok_def] pq] Pair Some r
    show ?thesis
      by (simp add: berths_trigger_put_def status_ok_def) (simp add: evs_def)
  qed
qed

lemma status_ok_cranes_trigger_put:
  assumes "status_ok st"
  shows "status_ok (cranes_trigger_put st)"
proof (cases "trigger_put (cranes st)")
  case (Pair r g)
  show ?thesis
  proof (cases g)
    case None
    with Pair have "r = cranes st"
      by (auto simp: trigger_put_def split: list.splits if_splits)
    with Pair None assms show ?thesis
      by (simp add: cranes_trigger_put_def status_ok_def evs_def)
  next
    case (Some h)
    with Pair obtain t where pq: "put_queue (cranes st) = h # t"
      and r: "r = (cranes st)\<lparr>users := users (cranes st) @ [h], put_queue := t\<rparr>"
      by (auto simp: trigger_put_def split: list.splits if_splits)
    from statusP_grant_crane [OF assms [unfolded status_ok_def] pq] Pair Some r
    show ?thesis
      by (simp add: cranes_trigger_put_def status_ok_def) (simp add: evs_def)
  qed
qed

lemma status_ok_ship_start:
  assumes s: "statusP (insert (Init_ship p) (evs st)) (ships st) (berths st) (cranes st)"
  shows "status_ok (ship_start p st)"
proof (cases "\<exists>n k. frame_at st p = Some (Not_started n k)")
  case True
  then obtain n k where f: "p < length (ships st)" "ships st ! p = Not_started n k"
    by (auto simp: frame_at_def split: if_splits)
  let ?s = "(log (Arrived p) (set_frame p (At_berth_request n k (now st)) st))
              \<lparr>berths := (berths st)\<lparr>put_queue := put_queue (berths st) @ [p]\<rparr>\<rparr>"
  from statusP_start [OF s f] have "status_ok ?s"
    by (simp add: status_ok_def) (simp add: evs_def frame_defs)
  then have "status_ok (berths_trigger_put ?s)" by (rule status_ok_berths_trigger_put)
  moreover from f have "ship_start p st = berths_trigger_put ?s"
    by (simp add: ship_start_def frame_at_def berths_request_def frame_defs)
  ultimately show ?thesis by simp
next
  case False
  then have e: "ship_start p st = st"
    by (auto simp: ship_start_def split: option.splits ship_frame.splits)
  have "statusP (evs st) (ships st) (berths st) (cranes st)"
    by (rule statusP_drop [OF s]) (use False in \<open>auto simp: frame_at_def\<close>)
  with e show ?thesis by (simp add: status_ok_def)
qed

lemma status_ok_ship_docked:
  assumes s: "statusP (insert (Berth_request p) (evs st)) (ships st) (berths st) (cranes st)"
  shows "status_ok (ship_docked p st)"
proof (cases "\<exists>n k a. frame_at st p = Some (At_berth_request n k a)")
  case True
  then obtain n k a where f: "p < length (ships st)" "ships st ! p = At_berth_request n k a"
    by (auto simp: frame_at_def split: if_splits)
  let ?s = "(log (Docked p) (set_frame p (At_crane_request n k a (now st)) st))
              \<lparr>cranes := (cranes st)\<lparr>put_queue := put_queue (cranes st) @ [p]\<rparr>\<rparr>"
  from statusP_docked [OF s f] have "status_ok ?s"
    by (simp add: status_ok_def) (simp add: evs_def frame_defs)
  then have "status_ok (cranes_trigger_put ?s)" by (rule status_ok_cranes_trigger_put)
  moreover from f have "ship_docked p st = cranes_trigger_put ?s"
    by (simp add: ship_docked_def frame_at_def cranes_request_def frame_defs)
  ultimately show ?thesis by simp
next
  case False
  then have e: "ship_docked p st = st"
    by (auto simp: ship_docked_def split: option.splits ship_frame.splits)
  have "statusP (evs st) (ships st) (berths st) (cranes st)"
    by (rule statusP_drop [OF s]) (use False in \<open>auto simp: frame_at_def\<close>)
  with e show ?thesis by (simp add: status_ok_def)
qed

lemma status_ok_ship_crane_secured:
  assumes s: "statusP (insert (Crane_request p) (evs st)) (ships st) (berths st) (cranes st)"
    and n: "no_raise ut st"
  shows "status_ok (ship_crane_secured ut p st)"
proof (cases "\<exists>n k a d. frame_at st p = Some (At_crane_request n k a d)")
  case True
  then obtain n0 k a d where f: "p < length (ships st)" "ships st ! p = At_crane_request n0 k a d"
    by (auto simp: frame_at_def split: if_splits)
  then have "At_crane_request n0 k a d \<in> set (ships st)" by (metis nth_mem)
  with n have pos: "\<not> k * ut < 0" by (auto simp: no_raise_def cargo_ok_def)
  from statusP_secured [OF s f, of "now st"] f pos show ?thesis
    by (simp add: status_ok_def ship_crane_secured_def frame_at_def Let_def)
       (simp add: frame_defs evs_def)
next
  case False
  then have e: "ship_crane_secured ut p st = st"
    by (auto simp: ship_crane_secured_def split: option.splits ship_frame.splits)
  have "statusP (evs st) (ships st) (berths st) (cranes st)"
    by (rule statusP_drop [OF s]) (use False in \<open>auto simp: frame_at_def\<close>)
  with e show ?thesis by (simp add: status_ok_def)
qed

lemma status_ok_ship_unloaded:
  assumes s: "statusP (insert (Unload_timeout p) (evs st)) (ships st) (berths st) (cranes st)"
  shows "status_ok (ship_unloaded p st)"
proof (cases "\<exists>n k a d t. frame_at st p = Some (At_unload_timeout n k a d t)")
  case True
  then obtain n k a d t where f: "p < length (ships st)"
      "ships st ! p = At_unload_timeout n k a d t"
    by (auto simp: frame_at_def split: if_splits)
  from statusP_unloaded [OF s f] f show ?thesis
    by (simp add: status_ok_def ship_unloaded_def frame_at_def Let_def)
       (simp add: frame_defs evs_def berths_release_def cranes_release_def)
next
  case False
  then have e: "ship_unloaded p st = st"
    by (auto simp: ship_unloaded_def split: option.splits ship_frame.splits)
  have "statusP (evs st) (ships st) (berths st) (cranes st)"
    by (rule statusP_drop [OF s]) (use False in \<open>auto simp: frame_at_def\<close>)
  with e show ?thesis by (simp add: status_ok_def)
qed

lemma status_ok_arrival_next: "status_ok st \<Longrightarrow> status_ok (arrival_next st)"
  by (simp add: status_ok_def arrival_next_def Let_def split: list.splits)
     (simp add: evs_def)

lemma status_ok_spawn_ship: "status_ok st \<Longrightarrow> status_ok (spawn_ship r st)"
  using statusP_spawn [of "evs st" "ships st" "berths st" "cranes st"]
  by (simp add: status_ok_def spawn_ship_def) (simp add: evs_def)

lemma status_ok_dispatch:
  assumes s: "statusP (insert x (evs st)) (ships st) (berths st) (cranes st)"
    and n: "no_raise ut st" and d: "dispatch ut x st = (Continue, st')"
  shows "status_ok st'"
proof (cases "ship_event x")
  case True
  with s n d show ?thesis
    by (cases x)
       (auto simp: status_ok_ship_start status_ok_ship_docked status_ok_ship_crane_secured
          status_ok_ship_unloaded)
next
  case False
  with s have "status_ok st" by (simp add: status_ok_def)
  with False d show ?thesis
    by (cases x)
       (auto simp: status_ok_arrival_next status_ok_spawn_ship status_ok_berths_trigger_put
          status_ok_cranes_trigger_put split: option.splits)
qed

lemma status_ok_step:
  assumes s: "status_ok st" and n: "no_raise ut st" and c: "step ut st = (Continue, st')"
  shows "status_ok st'"
proof -
  from step_Continue [OF c] obtain e q where q: "queue st = e # q"
    and d: "dispatch ut (ev e) (st\<lparr>now := etime e, queue := q\<rparr>) = (Continue, st')"
    by blast
  let ?s = "st\<lparr>now := etime e, queue := q\<rparr>"
  from s q have "statusP (insert (ev e) (evs ?s)) (ships ?s) (berths ?s) (cranes ?s)"
    by (simp add: status_ok_def evs_def)
  moreover from n q have "no_raise ut ?s" by (simp add: no_raise_def)
  ultimately show ?thesis using d by (rule status_ok_dispatch)
qed

text \<open>
  A waiting request is never stranded: while requests wait and units are free, a release
  event is still queued, whose callback grants the next request.
\<close>

fun is_release_berth :: "event \<Rightarrow> bool" where
  "is_release_berth (Release_berth p) = True"
| "is_release_berth e = False"

fun is_release_crane :: "event \<Rightarrow> bool" where
  "is_release_crane (Release_crane p) = True"
| "is_release_crane e = False"

definition count_events :: "(event \<Rightarrow> bool) \<Rightarrow> sim_state \<Rightarrow> nat" where
  "count_events P st = length (filter (\<lambda>e. P (ev e)) (queue st))"

definition slots_ok :: "resource \<Rightarrow> nat \<Rightarrow> bool" where
  "slots_ok r k \<longleftrightarrow>
     0 < capacity r \<and>
     (int (length (put_queue r)) \<le> int k \<or> capacity r - int (length (users r)) \<le> int k)"

definition free_ok :: "sim_state \<Rightarrow> bool" where
  "free_ok st \<longleftrightarrow>
     slots_ok (berths st) (count_events is_release_berth st) \<and>
     slots_ok (cranes st) (count_events is_release_crane st)"

lemma length_filter_heappush:
  "length (filter P (heappush x q)) = length (filter P q) + (if P x then 1 else 0)"
  by (induction q) auto

lemma count_events_schedule [simp]:
  "count_events P (schedule x p d st) = count_events P st + (if P x then 1 else 0)"
  by (simp add: count_events_def length_filter_heappush)

lemma count_events_update [simp]:
  "count_events P (st\<lparr>berths := b\<rparr>) = count_events P st"
  "count_events P (st\<lparr>cranes := c\<rparr>) = count_events P st"
  "count_events P (st\<lparr>history := h\<rparr>) = count_events P st"
  "count_events P (st\<lparr>ships := fs\<rparr>) = count_events P st"
  "count_events P (st\<lparr>rows := rs\<rparr>) = count_events P st"
  "count_events P (st\<lparr>pending := r\<rparr>) = count_events P st"
  by (simp_all add: count_events_def)

lemma count_events_frame [simp]:
  "count_events P (set_frame p f st) = count_events P st"
  "count_events P (log a st) = count_events P st"
  "count_events P (emit r st) = count_events P st"
  by (simp_all add: count_events_def frame_defs)

lemma slots_ok_mono: "slots_ok r k \<Longrightarrow> k \<le> k' \<Longrightarrow> slots_ok r k'"
  by (auto simp: slots_ok_def)

lemma slots_ok_trigger_put: "slots_ok r k \<Longrightarrow> slots_ok (fst (trigger_put r)) k"
  by (auto simp: slots_ok_def trigger_put_def split: list.splits)

lemma slots_ok_released: "slots_ok r (Suc k) \<Longrightarrow> slots_ok (fst (trigger_put r)) k"
  by (auto simp: slots_ok_def trigger_put_def split: list.splits)

lemma slots_ok_request:
  "slots_ok r k \<Longrightarrow> slots_ok (fst (trigger_put (r\<lparr>put_queue := put_queue r @ [p]\<rparr>))) k"
  by (cases "put_queue r") (auto simp: slots_ok_def trigger_put_def)

lemma slots_ok_release:
  "slots_ok r k \<Longrightarrow> slots_ok (r\<lparr>users := remove1 p (users r)\<rparr>) (Suc k)"
  by (auto simp: slots_ok_def length_remove1)

lemma trigger_put_state:
  "berths (berths_trigger_put st) = fst (trigger_put (berths st))"
  "cranes (cranes_trigger_put st) = fst (trigger_put (cranes st))"
  "count_events is_release_berth (berths_trigger_put st) = count_events is_release_berth st"
  "count_events is_release_crane (berths_trigger_put st) = count_events is_release_crane st"
  "count_events is_release_berth (cranes_trigger_put st) = count_events is_release_berth st"
  "count_events is_release_crane (cranes_trigger_put st) = count_events is_release_crane st"
  by (auto simp: berths_trigger_put_def cranes_trigger_put_def
        split: prod.splits option.splits)

lemma free_ok_berths_request: "free_ok st \<Longrightarrow> free_ok (berths_request p st)"
  by (simp add: free_ok_def berths_request_def trigger_put_state slots_ok_request)

lemma free_ok_cranes_request: "free_ok st \<Longrightarrow> free_ok (cranes_request p st)"
  by (simp add: free_ok_def cranes_request_def trigger_put_state slots_ok_request)

lemma free_ok_frame [simp]:
  "free_ok (set_frame p f st) = free_ok st"
  "free_ok (log a st) = free_ok st"
  "free_ok (emit r st) = free_ok st"
  by (simp_all add: free_ok_def) (simp_all add: frame_defs)

lemma free_ok_schedule: "free_ok st \<Longrightarrow> free_ok (schedule x p d st)"
  by (auto simp: free_ok_def intro: slots_ok_mono)

lemma free_ok_cranes_release: "free_ok st \<Longrightarrow> free_ok (cranes_release p st)"
  by (auto simp: free_ok_def cranes_release_def slots_ok_release intro: slots_ok_mono)

lemma free_ok_berths_release: "free_ok st \<Longrightarrow> free_ok (berths_release p st)"
  by (auto simp: free_ok_def berths_release_def slots_ok_release intro: slots_ok_mono)

lemma free_ok_ship_start: "free_ok st \<Longrightarrow> free_ok (ship_start p st)"
  by (simp add: ship_start_def free_ok_berths_request split: option.splits ship_frame.splits)

lemma free_ok_ship_docked: "free_ok st \<Longrightarrow> free_ok (ship_docked p st)"
  by (simp add: ship_docked_def free_ok_cranes_request split: option.splits ship_frame.splits)

lemma free_ok_ship_crane_secured: "free_ok st \<Longrightarrow> free_ok (ship_crane_secured ut p st)"
  by (simp add: ship_crane_secured_def Let_def free_ok_schedule free_ok_berths_release
        free_ok_cranes_release split: option.splits ship_frame.splits)

lemma free_ok_ship_unloaded: "free_ok st \<Longrightarrow> free_ok (ship_unloaded p st)"
  by (simp add: ship_unloaded_def Let_def free_ok_schedule free_ok_berths_release
        free_ok_cranes_release split: option.splits ship_frame.splits)

lemma free_ok_arrival_next: "free_ok st \<Longrightarrow> free_ok (arrival_next st)"
  by (simp add: free_ok_def arrival_next_def Let_def split: list.splits)

lemma free_ok_spawn_ship: "free_ok st \<Longrightarrow> free_ok (spawn_ship r st)"
  by (simp add: free_ok_def spawn_ship_def)

lemma free_ok_step:
  assumes f: "free_ok st" and c: "step ut st = (Continue, st')"
  shows "free_ok st'"
proof -
  from step_Continue [OF c] obtain e q where q: "queue st = e # q"
    and d: "dispatch ut (ev e) (st\<lparr>now := etime e, queue := q\<rparr>) = (Continue, st')"
    by blast
  let ?s = "st\<lparr>now := etime e, queue := q\<rparr>"
  have pop: "count_events P st = count_events P ?s + (if P (ev e) then 1 else 0)" for P
    by (simp add: count_events_def q)
  show ?thesis
  proof (cases "ev e")
    case (Release_crane p)
    with f pop [of is_release_crane] pop [of is_release_berth]
    have "slots_ok (cranes ?s) (Suc (count_events is_release_crane ?s))"
      and "slots_ok (berths ?s) (count_events is_release_berth ?s)"
      by (simp_all add: free_ok_def)
    with d Release_crane show ?thesis
      by (auto simp: free_ok_def trigger_put_state slots_ok_released)
  next
    case (Release_berth p)
    with f pop [of is_release_crane] pop [of is_release_berth]
    have "slots_ok (berths ?s) (Suc (count_events is_release_berth ?s))"
      and "slots_ok (cranes ?s) (count_events is_release_crane ?s)"
      by (simp_all add: free_ok_def)
    with d Release_berth show ?thesis
      by (auto simp: free_ok_def trigger_put_state slots_ok_released)
  next
    case Arrival_timeout
    with f pop [of is_release_crane] pop [of is_release_berth] have "free_ok ?s"
      by (simp add: free_ok_def)
    with d Arrival_timeout show ?thesis
      by (auto simp: free_ok_arrival_next free_ok_spawn_ship split: option.splits)
  qed (use f d pop [of is_release_crane] pop [of is_release_berth] in
        \<open>auto simp: free_ok_def [of st] free_ok_def [of "st\<lparr>now := etime e, queue := q\<rparr>"]
           intro!: free_ok_arrival_next free_ok_ship_start free_ok_ship_docked
             free_ok_ship_crane_secured free_ok_ship_unloaded\<close>)
qed

text \<open>
  The unloading still to be started bounds how late anything can happen: every queued event
  other than the stop event lies, with the unloading not yet started, before a fixed bound.
\<close>

fun work :: "int \<Rightarrow> ship_frame \<Rightarrow> int" where
  "work ut (Not_started n c) = c * ut"
| "work ut (At_berth_request n c a) = c * ut"
| "work ut (At_crane_request n c a d) = c * ut"
| "work ut f = 0"

definition row_work :: "int \<Rightarrow> arrival_row \<Rightarrow> int" where
  "row_work ut r = row_cargo_containers r * ut"

definition pending_work :: "int \<Rightarrow> arrival_row option \<Rightarrow> int" where
  "pending_work ut x = (case x of None \<Rightarrow> 0 | Some r \<Rightarrow> row_work ut r)"

definition remaining :: "int \<Rightarrow> sim_state \<Rightarrow> int" where
  "remaining ut st =
     sum_list (map (work ut) (ships st)) + sum_list (map (row_work ut) (rows st)) +
     pending_work ut (pending st)"

definition budget_ok :: "int \<Rightarrow> int \<Rightarrow> int \<Rightarrow> sim_state \<Rightarrow> bool" where
  "budget_ok ut m b st \<longleftrightarrow>
     (\<forall>r \<in> set (rows st). row_arrival_time_minutes r \<le> m) \<and>
     m + remaining ut st \<le> b \<and> now st + remaining ut st \<le> b \<and>
     (\<forall>e \<in> set (queue st). ev e \<noteq> Until \<longrightarrow> etime e + remaining ut st \<le> b)"

lemma budget_okI:
  assumes "budget_ok ut m b s" and "remaining ut s' \<le> remaining ut s"
    and "set (rows s') \<subseteq> set (rows s)" and "now s' = now s"
    and "\<And>y. y \<in> set (queue s') \<Longrightarrow> y \<in> set (queue s) \<or> etime y + remaining ut s' \<le> b"
  shows "budget_ok ut m b s'"
  unfolding budget_ok_def
proof (intro conjI ballI impI)
  fix r assume "r \<in> set (rows s')"
  with assms(1,3) show "row_arrival_time_minutes r \<le> m" by (auto simp: budget_ok_def)
next
  from assms(1,2) show "m + remaining ut s' \<le> b" by (simp add: budget_ok_def)
next
  from assms(1,2,4) show "now s' + remaining ut s' \<le> b" by (simp add: budget_ok_def)
next
  fix y assume y: "y \<in> set (queue s')" "ev y \<noteq> Until"
  from assms(5) [OF y(1)] show "etime y + remaining ut s' \<le> b"
  proof
    assume "y \<in> set (queue s)"
    with assms(1) y(2) have "etime y + remaining ut s \<le> b" by (simp add: budget_ok_def)
    with assms(2) show ?thesis by simp
  qed
qed

lemma budget_ok_same:
  assumes "budget_ok ut m b s" and "ships s' = ships s" and "rows s' = rows s"
    and "pending s' = pending s" and "now s' = now s"
    and "\<And>y. y \<in> set (queue s') \<Longrightarrow> y \<in> set (queue s) \<or> etime y = now s"
  shows "budget_ok ut m b s'"
proof (rule budget_okI [OF assms(1)])
  from assms(2-4) show r: "remaining ut s' \<le> remaining ut s" by (simp add: remaining_def)
  from assms(3) show "set (rows s') \<subseteq> set (rows s)" by simp
  from assms(5) show "now s' = now s" .
  fix y assume "y \<in> set (queue s')"
  with assms(6) have "y \<in> set (queue s) \<or> etime y = now s" by blast
  moreover from assms(1) r have "now s + remaining ut s' \<le> b" by (simp add: budget_ok_def)
  ultimately show "y \<in> set (queue s) \<or> etime y + remaining ut s' \<le> b" by auto
qed

lemma sum_list_map_update:
  "p < length fs \<Longrightarrow>
   sum_list (map g (fs[p := f])) = sum_list (map g fs) - g (fs ! p) + (g f :: int)"
proof (induction fs arbitrary: p)
  case Nil
  then show ?case by simp
next
  case (Cons x xs)
  then show ?case by (cases p) auto
qed

lemma remaining_set_frame:
  "p < length (ships st) \<Longrightarrow>
   remaining ut (set_frame p f st) = remaining ut st - work ut (ships st ! p) + work ut f"
  by (simp add: remaining_def set_frame_def sum_list_map_update)

lemma remaining_ship_start: "remaining ut (ship_start p st) = remaining ut st"
proof -
  have e: "remaining ut (berths_request p s) = remaining ut s"
      "remaining ut (log a s) = remaining ut s" for s a
    by (simp_all add: remaining_def log_def)
  show ?thesis
    by (auto simp: ship_start_def e remaining_set_frame frame_at_def
          split: option.splits ship_frame.splits if_splits)
qed

lemma remaining_ship_docked: "remaining ut (ship_docked p st) = remaining ut st"
proof -
  have e: "remaining ut (cranes_request p s) = remaining ut s"
      "remaining ut (log a s) = remaining ut s" for s a
    by (simp_all add: remaining_def log_def)
  show ?thesis
    by (auto simp: ship_docked_def e remaining_set_frame frame_at_def
          split: option.splits ship_frame.splits if_splits)
qed

lemma remaining_ship_unloaded: "remaining ut (ship_unloaded p st) = remaining ut st"
proof -
  have e: "remaining ut s' = remaining ut s"
    if "ships s' = ships s" "rows s' = rows s" "pending s' = pending s" for s s'
    using that by (simp add: remaining_def)
  show ?thesis
  proof (cases "\<exists>n k a d t. frame_at st p = Some (At_unload_timeout n k a d t)")
    case True
    then obtain n k a d t where f: "p < length (ships st)"
        "ships st ! p = At_unload_timeout n k a d t"
      by (auto simp: frame_at_def split: if_splits)
    then have "ships (ship_unloaded p st) = (ships st)[p := Returned]"
      by (simp add: ship_unloaded_def frame_at_def Let_def frame_defs)
    with f show ?thesis by (simp add: remaining_def sum_list_map_update)
  next
    case False
    then have "ship_unloaded p st = st"
      by (auto simp: ship_unloaded_def split: option.splits ship_frame.splits)
    then show ?thesis by simp
  qed
qed

lemma budget_ok_ship_start:
  assumes "budget_ok ut m b st"
  shows "budget_ok ut m b (ship_start p st)"
  using assms
  by (rule budget_okI)
     (use assms in \<open>auto simp: remaining_ship_start budget_ok_def dest!: queue_ship_start\<close>)

lemma budget_ok_ship_docked:
  assumes "budget_ok ut m b st"
  shows "budget_ok ut m b (ship_docked p st)"
  using assms
  by (rule budget_okI)
     (use assms in \<open>auto simp: remaining_ship_docked budget_ok_def dest!: queue_ship_docked\<close>)

lemma budget_ok_ship_unloaded:
  assumes "budget_ok ut m b st"
  shows "budget_ok ut m b (ship_unloaded p st)"
  using assms
  by (rule budget_okI)
     (use assms in \<open>auto simp: remaining_ship_unloaded budget_ok_def dest!: queue_ship_unloaded\<close>)

lemma budget_ok_trigger_put:
  "budget_ok ut m b st \<Longrightarrow> budget_ok ut m b (berths_trigger_put st)"
  "budget_ok ut m b st \<Longrightarrow> budget_ok ut m b (cranes_trigger_put st)"
  by (erule budget_ok_same; auto dest!: queue_trigger_put)+

lemma budget_ok_ship_crane_secured:
  assumes i: "budget_ok ut m b st" and n: "no_raise ut st"
  shows "budget_ok ut m b (ship_crane_secured ut p st)"
proof (cases "\<exists>n k a d. frame_at st p = Some (At_crane_request n k a d)")
  case True
  then obtain n0 k a d where f: "p < length (ships st)" "ships st ! p = At_crane_request n0 k a d"
    by (auto simp: frame_at_def split: if_splits)
  then have "At_crane_request n0 k a d \<in> set (ships st)" by (metis nth_mem)
  with n have pos: "0 \<le> k * ut" by (auto simp: no_raise_def cargo_ok_def)
  let ?s = "ship_crane_secured ut p st"
  from f pos have sh: "ships ?s = (ships st)[p := At_unload_timeout n0 k a d (now st)]"
    by (simp add: ship_crane_secured_def frame_at_def Let_def frame_defs)
  with f have r: "remaining ut ?s = remaining ut st - k * ut"
    by (simp add: remaining_def sum_list_map_update)
  show ?thesis
  proof (rule budget_okI [OF i])
    from r pos show "remaining ut ?s \<le> remaining ut st" by simp
    show "set (rows ?s) \<subseteq> set (rows st)" "now ?s = now st" by simp_all
    fix y assume "y \<in> set (queue ?s)"
    with f pos have "y \<in> set (queue st) \<or> etime y = now st + k * ut"
      by (auto simp: ship_crane_secured_def frame_at_def Let_def frame_defs)
    moreover from i have "now st + remaining ut st \<le> b" by (simp add: budget_ok_def)
    ultimately show "y \<in> set (queue st) \<or> etime y + remaining ut ?s \<le> b"
      using r by auto
  qed
next
  case False
  then have "ship_crane_secured ut p st = st"
    by (auto simp: ship_crane_secured_def split: option.splits ship_frame.splits)
  with i show ?thesis by simp
qed

lemma remaining_arrival_next:
  "remaining ut (arrival_next st) = remaining ut st - pending_work ut (pending st)"
  by (simp add: remaining_def arrival_next_def Let_def pending_work_def split: list.splits)

lemma remaining_spawn_ship:
  "remaining ut (spawn_ship r st) = remaining ut st + row_work ut r"
  by (simp add: remaining_def spawn_ship_def row_work_def)

lemma budget_ok_arrival:
  assumes i: "budget_ok ut m b st"
    and s1: "s1 = st \<or> s1 = spawn_ship r st \<and> pending st = Some r"
    and p: "0 \<le> pending_work ut (pending st)"
  shows "budget_ok ut m b (arrival_next s1)"
proof (rule budget_okI [OF i])
  let ?s = "arrival_next s1"
  from s1 p show le: "remaining ut ?s \<le> remaining ut st"
    by (auto simp: remaining_arrival_next remaining_spawn_ship pending_work_def)
  from s1 have rw: "rows s1 = rows st" and nw: "now s1 = now st" by auto
  show "set (rows ?s) \<subseteq> set (rows st)"
    by (auto simp: arrival_next_def Let_def rw split: list.splits if_splits)
  from nw show "now ?s = now st" by simp
  fix y assume y: "y \<in> set (queue ?s)"
  from i le have b1: "now st + remaining ut ?s \<le> b" and b2: "m + remaining ut ?s \<le> b"
    by (simp_all add: budget_ok_def)
  from y have "y \<in> set (queue s1) \<or> etime y = now st \<or>
      (\<exists>r' \<in> set (rows st). etime y = row_arrival_time_minutes r')"
    by (auto simp: arrival_next_def Let_def rw nw split: list.splits if_splits)
  moreover have "y \<in> set (queue st) \<or> etime y = now st" if "y \<in> set (queue s1)"
    using that s1 by (auto simp: spawn_ship_def)
  moreover from i have "\<forall>r' \<in> set (rows st). row_arrival_time_minutes r' \<le> m"
    by (simp add: budget_ok_def)
  ultimately show "y \<in> set (queue st) \<or> etime y + remaining ut ?s \<le> b"
    using b1 b2 by fastforce
qed

lemma budget_ok_dispatch:
  assumes i: "budget_ok ut m b st" and n: "no_raise ut st"
    and d: "dispatch ut x st = (Continue, st')"
  shows "budget_ok ut m b st'"
proof -
  from n have p: "0 \<le> pending_work ut (pending st)"
    by (auto simp: no_raise_def pending_work_def row_work_def split: option.splits)
  show ?thesis
  proof (cases x)
    case Init_driver
    with d budget_ok_arrival [OF i _ p, of st] show ?thesis by auto
  next
    case Arrival_timeout
    show ?thesis
    proof (cases "pending st")
      case None
      with d Arrival_timeout i show ?thesis by simp
    next
      case (Some r)
      with d Arrival_timeout budget_ok_arrival [OF i _ p, of "spawn_ship r st" r]
      show ?thesis by auto
    qed
  qed (use i n d in \<open>auto simp: budget_ok_ship_start budget_ok_ship_docked
         budget_ok_ship_unloaded budget_ok_ship_crane_secured budget_ok_trigger_put\<close>)
qed

lemma budget_ok_step:
  assumes i: "budget_ok ut m b st" and n: "no_raise ut st"
    and c: "step ut st = (Continue, st')"
  shows "budget_ok ut m b st'"
proof -
  from step_Continue [OF c] obtain e q where q: "queue st = e # q"
    and d: "dispatch ut (ev e) (st\<lparr>now := etime e, queue := q\<rparr>) = (Continue, st')"
    by blast
  let ?s = "st\<lparr>now := etime e, queue := q\<rparr>"
  from d have "ev e \<noteq> Until" by auto
  with i q have "budget_ok ut m b ?s" by (simp add: budget_ok_def remaining_def)
  moreover from n q have "no_raise ut ?s" by (simp add: no_raise_def)
  ultimately show ?thesis using d by (rule budget_ok_dispatch)
qed

lemma work_nonneg: "cargo_ok ut f \<Longrightarrow> 0 \<le> work ut f"
  by (cases f) (auto simp: cargo_ok_def)

lemma remaining_nonneg: "no_raise ut st \<Longrightarrow> 0 \<le> remaining ut st"
  unfolding remaining_def
  by (intro add_nonneg_nonneg sum_list_nonneg)
     (auto simp: no_raise_def work_nonneg row_work_def pending_work_def split: option.splits)

lemma budget_ok_bound:
  "budget_ok ut m b st \<Longrightarrow> no_raise ut st \<Longrightarrow> e \<in> set (queue st) \<Longrightarrow> ev e \<noteq> Until \<Longrightarrow>
   etime e \<le> b"
  using remaining_nonneg [of ut st] by (auto simp: budget_ok_def)

text \<open>
  When only the stop event is left in the queue, every ship has returned: a ship that has
  not holds a queued event or waits for a unit that a queued release would hand over.
\<close>

lemma all_returned:
  assumes s: "statusP E fs b c" and sb: "slots_ok b 0" and sc: "slots_ok c 0"
    and e: "\<forall>x \<in> E. \<not> ship_event x" and nr: "\<forall>f \<in> set fs. f \<noteq> Raised"
  shows "\<forall>f \<in> set fs. f = Returned"
proof -
  have ne: "Init_ship q \<notin> E" "Berth_request q \<notin> E" "Crane_request q \<notin> E"
      "Unload_timeout q \<notin> E" for q
    using e by auto
  have ok: "ok_view False False False False (q \<in> set (users b)) (q \<in> set (put_queue b))
      (q \<in> set (users c)) (q \<in> set (put_queue c)) (fs ! q)" if "q < length fs" for q
    using s that ne by (simp add: statusP_def ok_ship_def)
  have kn: "q < length fs" if "q \<in> set (users b) \<or> q \<in> set (put_queue b) \<or>
      q \<in> set (users c) \<or> q \<in> set (put_queue c)" for q
    using s that by (auto simp: statusP_def known_def)
  have uc: "users c = []"
  proof (rule ccontr)
    assume "users c \<noteq> []"
    then obtain u where u: "u \<in> set (users c)" by (cases "users c") auto
    with kn have "u < length fs" by blast
    from ok [OF this] u show False by (cases "fs ! u") (auto simp: ok_view_def)
  qed
  with sc have qc: "put_queue c = []" by (auto simp: slots_ok_def)
  have ub: "users b = []"
  proof (rule ccontr)
    assume "users b \<noteq> []"
    then obtain u where u: "u \<in> set (users b)" by (cases "users b") auto
    with kn have "u < length fs" by blast
    from ok [OF this] u uc qc show False by (cases "fs ! u") (auto simp: ok_view_def)
  qed
  with sb have qb: "put_queue b = []" by (auto simp: slots_ok_def)
  show ?thesis
  proof
    fix f assume f: "f \<in> set fs"
    then obtain q where q: "q < length fs" "fs ! q = f" by (auto simp: in_set_conv_nth)
    from ok [OF q(1)] q(2) uc qc ub qb nr f show "f = Returned"
      by (cases f) (auto simp: ok_view_def)
  qed
qed

definition live :: "int \<Rightarrow> int \<Rightarrow> int \<Rightarrow> sim_state \<Rightarrow> bool" where
  "live ut m b st \<longleftrightarrow> status_ok st \<and> free_ok st \<and> budget_ok ut m b st \<and> no_raise ut st"

lemma live_step: "live ut m b st \<Longrightarrow> step ut st = (Continue, st') \<Longrightarrow> live ut m b st'"
  by (auto simp: live_def intro: status_ok_step free_ok_step budget_ok_step no_raise_step)

lemma live_start:
  assumes "0 < nb" "0 < nc" "0 \<le> m" "0 < h"
    and "\<forall>r \<in> set A. row_arrival_time_minutes r \<le> m"
    and c: "\<forall>r \<in> set A. 0 \<le> row_cargo_containers r * ut"
  shows "live ut m (m + sum_list (map (row_work ut) A)) (start_state nb nc A h)"
proof -
  let ?s = "start_state nb nc A h"
  let ?i = "\<lparr>etime = 0, eprio = URGENT, eid = 0, ev = Init_driver\<rparr>"
  let ?u = "\<lparr>etime = h, eprio = URGENT, eid = Suc 0, ev = Until\<rparr>"
  from assms have q: "queue ?s = [?i, ?u]"
    by (simp add: start_state_def before_def)
  have f: "now ?s = 0" "rows ?s = A" "pending ?s = None" "ships ?s = []"
    "berths ?s = new_resource nb" "cranes ?s = new_resource nc"
    by (simp_all add: start_state_def new_environment_def)
  have "status_ok ?s"
    unfolding status_ok_def evs_def statusP_def known_def
    by (simp only: q f) (simp add: new_resource_def)
  moreover from assms have "free_ok ?s"
    unfolding free_ok_def slots_ok_def by (simp only: f) (simp add: new_resource_def)
  moreover from assms have "budget_ok ut m (m + sum_list (map (row_work ut) A)) ?s"
    unfolding budget_ok_def remaining_def
    by (simp only: q f) (simp add: pending_work_def)
  moreover from c have "no_raise ut ?s" by (rule no_raise_start)
  ultimately show ?thesis by (simp add: live_def)
qed

lemma stop_all_returned:
  assumes st: "started ut A h s" and l: "live ut m b s" and b: "b < h"
    and s: "step ut s = (Stop, s')"
  shows "length (results_data s') = length A"
proof -
  from st have d: "driver_ok A h s" and ck: "clock_ok s" and u: "until_ok h s"
    and c: "count_ok (length A) s"
    by (simp_all add: started_def invariant_def)
  from step_Stop [OF s] obtain e q where q: "queue s = e # q" and ue: "ev e = Until"
    and s': "s' = s\<lparr>now := etime e, queue := q\<rparr>"
    by blast
  from stop_sorted [OF d ck u s] s' have r: "rows s = []" "pending s = None" by simp_all
  from u q ue have h: "etime e = h" by (simp add: until_ok_def)
  from l have bo: "budget_ok ut m b s" and nr: "no_raise ut s" and so: "status_ok s"
    and fo: "free_ok s"
    by (simp_all add: live_def)
  have all: "ev y = Until" if y: "y \<in> set (queue s)" for y
  proof (rule ccontr)
    assume n: "ev y \<noteq> Until"
    from budget_ok_bound [OF bo nr y n] b have "etime y < h" by simp
    moreover from ck q h y have "h \<le> etime y" by (auto simp: clock_ok_def)
    ultimately show False by simp
  qed
  then have e: "\<forall>x \<in> evs s. \<not> ship_event x" by (auto simp: evs_def)
  from all have "filter (\<lambda>e. is_release_berth (ev e)) (queue s) = []"
      "filter (\<lambda>e. is_release_crane (ev e)) (queue s) = []"
    by (auto simp: filter_empty_conv)
  with fo have sl: "slots_ok (berths s) 0" "slots_ok (cranes s) 0"
    by (simp_all add: free_ok_def count_events_def)
  from nr have "\<forall>f \<in> set (ships s). f \<noteq> Raised" by (auto simp: no_raise_def cargo_ok_def)
  from all_returned [OF so [unfolded status_ok_def] sl e this]
  have "filter (\<lambda>f. f = Returned) (ships s) = ships s" by (simp add: filter_id_conv)
  then have "returned (ships s) = length (ships s)" by (simp add: returned_def)
  with c r show ?thesis by (simp add: s' count_ok_def not_spawned_def)
qed

lemma sorted_no_descent:
  "sorted (times (pre @ a # b # post)) \<Longrightarrow>
   \<not> row_arrival_time_minutes b < row_arrival_time_minutes a"
  by (auto simp: times_def sorted_append)

lemma horizon_bound:
  assumes "A \<noteq> []" and "\<forall>r \<in> set A. 0 \<le> row_arrival_time_minutes r"
  shows "\<exists>m. simulation_runtime A = Some (m + 20000) \<and> 0 \<le> m \<and>
             (\<forall>r \<in> set A. row_arrival_time_minutes r \<le> m)"
proof -
  from assms(1) obtain x xs where A: "A = x # xs" by (cases A) auto
  let ?m = "fold max (map row_arrival_time_minutes xs) (row_arrival_time_minutes x)"
  have m: "column_max (times A) = Some ?m" by (simp add: A column_max_def times_def)
  from column_max_ge [OF m] have le: "\<forall>r \<in> set A. row_arrival_time_minutes r \<le> ?m"
    by (auto simp: times_def)
  with assms(2) A have "0 \<le> ?m" by fastforce
  with le m show ?thesis by (auto simp: simulation_runtime_def times_def)
qed

lemma run_state_empty:
  "0 < nb \<Longrightarrow> 0 < nc \<Longrightarrow>
   fst (run_state nb nc ut [] rd) = None \<and> results_data (snd (run_state nb nc ut [] rd)) = []"
  by (simp add: run_state_def simulation_runtime_def column_max_def
        env_run_def step_def schedule_def new_environment_def clear_def arrival_next_def)

text \<open>
  A run over a sorted table whose unloading, taken together, takes less than the 20000
  minutes after the last arrival ends without an exception, every ship returned.
\<close>

lemma all_ships_return:
  assumes nb: "0 < nb" and nc: "0 < nc"
    and srt: "sorted (times A)"
    and pos: "\<forall>r \<in> set A. 0 \<le> row_arrival_time_minutes r"
    and cargo: "\<forall>r \<in> set A. 0 \<le> row_cargo_containers r * ut"
    and total: "sum_list (map (row_work ut) A) < 20000"
  shows "fst (run_state nb nc ut A rd) = None \<and>
         length (results_data (snd (run_state nb nc ut A rd))) = length A"
proof (cases "A = []")
  case True
  with run_state_empty [OF nb nc] show ?thesis by simp
next
  case False
  from horizon_bound [OF False pos] obtain m where h: "simulation_runtime A = Some (m + 20000)"
    and m: "0 \<le> m" and le: "\<forall>r \<in> set A. row_arrival_time_minutes r \<le> m"
    by blast
  let ?h = "m + 20000"
  let ?b = "m + sum_list (map (row_work ut) A)"
  from m have hp: "0 < ?h" by simp
  from le have hor: "\<forall>r \<in> set A. row_arrival_time_minutes r < ?h" by fastforce
  let ?I = "\<lambda>s. started ut A ?h s \<and> live ut m ?b s"
  let ?Q = "\<lambda>r. fst r = None \<and> length (results_data (snd r)) = length A"
  have "?Q (run_loop ut (start_state nb nc A ?h))"
  proof (rule run_loop_rule [where I = ?I and Q = ?Q])
    from started_start [OF hp] live_start [OF nb nc m hp le cargo]
    show "?I (start_state nb nc A ?h)" by simp
  next
    fix s s' assume "?I s" "step ut s = (Continue, s')"
    with hor show "?I s'" by (auto intro: started_step live_step)
  next
    fix s s' assume i: "?I s" and s: "step ut s = (Stop, s')"
    from total have "?b < ?h" by simp
    with i s stop_all_returned [of ut A ?h s m ?b s'] show "?Q (None, s')" by simp
  next
    fix s s' x assume i: "?I s" and s: "step ut s = (Crash x, s')"
    from i have hu: "has_until s" and f: "failures_ok A s" and n: "no_raise ut s"
      by (simp_all add: started_def live_def)
    from step_Crash [OF s] hu obtain e q where q: "queue s = e # q"
      and e: "ev e = Driver_failed x \<or> (\<exists>p. ev e = Ship_failed p x)"
      by (auto simp: has_until_def)
    from n q e have "ev e = Driver_failed x" by (auto simp: no_raise_def)
    with f q have fo: "failure_ok A s e x" by (simp add: failures_ok_def)
    from pos have "\<And>r post. A = r # post \<Longrightarrow> \<not> row_arrival_time_minutes r < 0" by fastforce
    with fo obtain pre a b post where "A = pre @ a # b # post"
      "row_arrival_time_minutes b < row_arrival_time_minutes a"
      unfolding failure_ok_def by blast
    with srt sorted_no_descent [of pre a b post] have False by simp
    then show "?Q (Some x, s')" ..
  qed
  with run_state_started [OF nb nc h hp, of ut rd] show ?thesis by simp
qed

section \<open>The claims\<close>

lemma results_of_run:
  "snd (run_simulation nb nc ut A rd) = results_data (snd (run_state nb nc ut A rd))"
  "fst (run_simulation nb nc ut A rd) = fst (run_state nb nc ut A rd)"
  by (simp_all add: run_simulation_def)

lemma record_of_run:
  assumes "d \<in> set (snd (run_simulation nb nc ut A rd))"
  shows "record_ok d \<and> unload_record ut d"
  using assms run_state_outcome [of ut A nb nc rd]
  by (simp add: results_of_run settled_def stamps_ok_def unload_ok_def)

text \<open>
  C1, as amended. No arrival record is rejected, and the run is ended by a horizon event at
  the greatest arrival time plus 20000, so the number of records is not always the number
  of valid arrival records. In a run that ends without an exception every arrival record has
  got its ship process, and the number of records is the number of arrival records less the
  ships that have not returned by the horizon. When both capacities are positive, the table
  is sorted by arrival time, no arrival time and no unloading delay (cargo times the
  unloading time of a container) is negative, and the unloading delays of all records add up
  to less than 20000, the run ends without an exception and the number of records is the
  number of arrival records: every ship has appended its record before the run ends.
\<close>

theorem records_conservation:
  "(run_state nb nc ut A rd = (None, st) \<longrightarrow>
      length (ships st) = length A \<and>
      length (results_data st) + length (filter (\<lambda>f. f \<noteq> Returned) (ships st)) = length A) \<and>
   (0 < nb \<and> 0 < nc \<and> sorted (map row_arrival_time_minutes A) \<and>
    (\<forall>r \<in> set A. 0 \<le> row_arrival_time_minutes r \<and> 0 \<le> row_cargo_containers r * ut) \<and>
    sum_list (map (\<lambda>r. row_cargo_containers r * ut) A) < 20000 \<longrightarrow>
      fst (run_simulation nb nc ut A rd) = None \<and>
      length (snd (run_simulation nb nc ut A rd)) = length A)"
proof (intro conjI impI)
  assume run: "run_state nb nc ut A rd = (None, st)"
  from run_state_outcome [of ut A nb nc rd] run
  have c: "count_ok (length A) st" and r: "rows st = []" "pending st = None"
    by (simp_all add: settled_def complete_def)
  from c r show l: "length (ships st) = length A"
    by (simp add: count_ok_def not_spawned_def)
  from c have n: "length (results_data st) = length (filter (\<lambda>f. f = Returned) (ships st))"
    by (simp add: count_ok_def returned_def)
  from sum_length_filter_compl [of "\<lambda>f. f = Returned" "ships st"] l n
  show "length (results_data st) + length (filter (\<lambda>f. f \<noteq> Returned) (ships st)) = length A"
    by simp
next
  assume a: "0 < nb \<and> 0 < nc \<and> sorted (map row_arrival_time_minutes A) \<and>
    (\<forall>r \<in> set A. 0 \<le> row_arrival_time_minutes r \<and> 0 \<le> row_cargo_containers r * ut) \<and>
    sum_list (map (\<lambda>r. row_cargo_containers r * ut) A) < 20000"
  then have "sum_list (map (row_work ut) A) < 20000" "sorted (times A)"
    by (simp_all add: row_work_def [abs_def] times_def)
  with a all_ships_return [of nb nc A ut rd]
  show "fst (run_simulation nb nc ut A rd) = None"
    and "length (snd (run_simulation nb nc ut A rd)) = length A"
    by (simp_all add: results_of_run)
qed

lemma long_unloading_run:
  "fst (run_state 1 1 2 [arrival 1 0 5, arrival 2 0 10000] []) = None"
  "ships (snd (run_state 1 1 2 [arrival 1 0 5, arrival 2 0 10000] []))
     = [Returned, At_unload_timeout 2 10000 0 10 10]"
  "results_data (snd (run_state 1 1 2 [arrival 1 0 5, arrival 2 0 10000] []))
     = [\<lparr>ship_id = 1, cargo_containers = 5, time_arrived_port = 0, time_docked = 0,
         time_crane_secured = 0, time_unloading_complete = 10, time_departed_port = 10\<rparr>]"
  by code_simp+

theorem records_conservation_witness:
  "fst (run_state 1 1 2 [arrival 1 0 5, arrival 2 0 10000] []) = None \<and>
   length (ships (snd (run_state 1 1 2 [arrival 1 0 5, arrival 2 0 10000] []))) = 2 \<and>
   length (results_data (snd (run_state 1 1 2 [arrival 1 0 5, arrival 2 0 10000] []))) = 1 \<and>
   (0::int) < 1 \<and> sorted (map row_arrival_time_minutes [arrival 1 0 5, arrival 2 0 3]) \<and>
   0 \<le> row_arrival_time_minutes (arrival 1 0 5) \<and>
   0 \<le> row_arrival_time_minutes (arrival 2 0 3) \<and>
   0 \<le> row_cargo_containers (arrival 1 0 5) * 2 \<and>
   0 \<le> row_cargo_containers (arrival 2 0 3) * 2 \<and>
   sum_list (map (\<lambda>r. row_cargo_containers r * 2) [arrival 1 0 5, arrival 2 0 3]) < 20000 \<and>
   fst (run_simulation 1 1 2 [arrival 1 0 5, arrival 2 0 3] []) = None \<and>
   length (snd (run_simulation 1 1 2 [arrival 1 0 5, arrival 2 0 3] [])) = 2"
proof -
  let ?r = "run_state 1 1 2 [arrival 1 0 5, arrival 2 0 10000] []"
  have "?r = (None, snd ?r)" using long_unloading_run(1) by (metis prod.collapse)
  with records_conservation [of 1 1 2 "[arrival 1 0 5, arrival 2 0 10000]" "[]" "snd ?r"]
  have "length (ships (snd ?r)) = 2 \<and> length (results_data (snd ?r)) = 1"
    by (simp add: long_unloading_run)
  moreover
  from records_conservation [of 1 1 2 "[arrival 1 0 5, arrival 2 0 3]" "[]"]
  have "fst (run_simulation 1 1 2 [arrival 1 0 5, arrival 2 0 3] []) = None \<and>
        length (snd (run_simulation 1 1 2 [arrival 1 0 5, arrival 2 0 3] [])) = 2"
    by (simp add: arrival_def)
  ultimately show ?thesis using long_unloading_run(1) by (simp add: arrival_def)
qed

theorem horizon_loses_record:
  "fst (run_simulation 1 1 2 [arrival 1 0 5, arrival 2 0 10000] []) = None \<and>
   length (snd (run_simulation 1 1 2 [arrival 1 0 5, arrival 2 0 10000] [])) = 1 \<and>
   0 < row_cargo_containers (arrival 1 0 5) \<and> 0 < row_cargo_containers (arrival 2 0 10000) \<and>
   length [arrival 1 0 5, arrival 2 0 10000] = 2"
  by (simp only: results_of_run long_unloading_run) (simp add: arrival_def)

text \<open>
  C2. In every record the five timestamps are in the order of the lifecycle: arrived, docked,
  crane secured, unloading complete, departed.
\<close>

theorem timestamps_ordered:
  assumes "d \<in> set (snd (run_simulation nb nc ut A rd))"
  shows "time_arrived_port d \<le> time_docked d \<and> time_docked d \<le> time_crane_secured d \<and>
         time_crane_secured d \<le> time_unloading_complete d \<and>
         time_unloading_complete d \<le> time_departed_port d"
  using record_of_run [OF assms] by (simp add: record_ok_def)

lemma two_ships_run:
  "run_simulation 1 1 2 [arrival 1 0 5, arrival 2 0 3] rd =
     (None,
      [\<lparr>ship_id = 1, cargo_containers = 5, time_arrived_port = 0, time_docked = 0,
        time_crane_secured = 0, time_unloading_complete = 10, time_departed_port = 10\<rparr>,
       \<lparr>ship_id = 2, cargo_containers = 3, time_arrived_port = 0, time_docked = 10,
        time_crane_secured = 10, time_unloading_complete = 16, time_departed_port = 16\<rparr>])"
  by code_simp

theorem timestamps_ordered_witness:
  "\<lparr>ship_id = 2, cargo_containers = 3, time_arrived_port = 0, time_docked = 10,
    time_crane_secured = 10, time_unloading_complete = 16, time_departed_port = 16\<rparr>
     \<in> set (snd (run_simulation 1 1 2 [arrival 1 0 5, arrival 2 0 3] [])) \<and>
   (0::int) \<le> 10 \<and> (10::int) \<le> 10 \<and> (10::int) \<le> 16 \<and> (16::int) \<le> 16"
  using timestamps_ordered
    [of "\<lparr>ship_id = 2, cargo_containers = 3, time_arrived_port = 0, time_docked = 10,
          time_crane_secured = 10, time_unloading_complete = 16, time_departed_port = 16\<rparr>"
        1 1 2 "[arrival 1 0 5, arrival 2 0 3]" "[]"]
  by (simp add: two_ships_run)

text \<open>
  C4, as amended. The run always ends, but it is ended by a horizon: an event scheduled at
  the greatest arrival time plus 20000 stops it. A run over a table with rows that ends
  without an exception ends at exactly that time, whether or not ships are still in the
  port; a ship still waiting or unloading then is cut short.
\<close>

theorem run_ends_at_horizon:
  assumes "run_state nb nc ut A rd = (None, st)" and "A \<noteq> []"
  shows "simulation_runtime A = Some (now st) \<and>
         now st = Max (set (map row_arrival_time_minutes A)) + 20000"
proof -
  from run_state_outcome [of ut A nb nc rd] assms
  have r: "simulation_runtime A = Some (now st)" by (simp add: complete_def)
  from assms(2) obtain x xs where A: "A = x # xs" by (cases A) auto
  have "fold max (map row_arrival_time_minutes xs) (row_arrival_time_minutes x)
          = Max (set (map row_arrival_time_minutes A))"
    unfolding A
    using Max.set_eq_fold [of "row_arrival_time_minutes x" "map row_arrival_time_minutes xs"]
    by simp
  with r show ?thesis by (auto simp: simulation_runtime_def column_max_def A)
qed

lemma cut_short_run:
  "fst (run_state 1 1 2 [arrival 1 0 10001] []) = None"
  "now (snd (run_state 1 1 2 [arrival 1 0 10001] [])) = 20000"
  "ships (snd (run_state 1 1 2 [arrival 1 0 10001] [])) = [At_unload_timeout 1 10001 0 0 0]"
  "results_data (snd (run_state 1 1 2 [arrival 1 0 10001] [])) = []"
  by code_simp+

theorem run_ends_at_horizon_witness:
  "fst (run_state 1 1 2 [arrival 1 0 10001] []) = None \<and> [arrival 1 0 10001] \<noteq> [] \<and>
   simulation_runtime [arrival 1 0 10001] = Some 20000 \<and>
   now (snd (run_state 1 1 2 [arrival 1 0 10001] [])) = 20000"
proof -
  let ?r = "run_state 1 1 2 [arrival 1 0 10001] []"
  have "?r = (None, snd ?r)" using cut_short_run(1) by (metis prod.collapse)
  from run_ends_at_horizon [OF this] show ?thesis by (simp add: cut_short_run)
qed

theorem horizon_cuts_ship_short:
  "fst (run_state 1 1 2 [arrival 1 0 10001] []) = None \<and>
   now (snd (run_state 1 1 2 [arrival 1 0 10001] [])) = 20000 \<and>
   ships (snd (run_state 1 1 2 [arrival 1 0 10001] [])) = [At_unload_timeout 1 10001 0 0 0] \<and>
   results_data (snd (run_state 1 1 2 [arrival 1 0 10001] [])) = []"
  by (simp add: cut_short_run)


text \<open>
  C5. In the history of every run, whatever its outcome, a ship releases its crane right
  after its unloading has finished (or right after it secured the crane, when the unloading
  delay raised), it releases its berth right after the crane, and it departs, leaving its
  record, right after it released the berth: there is one departure for each record.
\<close>

theorem crane_released_before_berth:
  "release_order None (history (snd (run_state nb nc ut A rd))) \<and>
   length (filter is_departed (history (snd (run_state nb nc ut A rd))))
     = length (snd (run_simulation nb nc ut A rd))"
  using run_state_outcome [of ut A nb nc rd]
  by (simp add: settled_def history_ok_def results_of_run)

lemma two_ships_history:
  "history (snd (run_state 1 1 2 [arrival 1 0 5, arrival 2 0 3] [])) =
     [Arrived 0, Arrived 1, Docked 0, Secured_crane 0, Finished_unloading 0, Crane_released 0,
      Berth_released 0, Departed 0, Docked 1, Secured_crane 1, Finished_unloading 1,
      Crane_released 1, Berth_released 1, Departed 1]"
  by code_simp

theorem crane_released_before_berth_witness:
  "release_order None
     [Arrived 0, Arrived 1, Docked 0, Secured_crane 0, Finished_unloading 0, Crane_released 0,
      Berth_released 0, Departed 0, Docked 1, Secured_crane 1, Finished_unloading 1,
      Crane_released 1, Berth_released 1, Departed 1] \<and>
   length (snd (run_simulation 1 1 2 [arrival 1 0 5, arrival 2 0 3] [])) = 2"
  using crane_released_before_berth [of 1 1 2 "[arrival 1 0 5, arrival 2 0 3]" "[]"]
  by (simp add: two_ships_history)

text \<open>
  C6, as amended. The arrival table is not checked before the simulation starts and there is
  no error of its own for an unsorted table. For every table that is not sorted by arrival
  time the run ends with an exception. When the port can be built, no arrival time is
  negative and no row has a negative unloading delay, that exception is the negative delay
  that the arrival process computes at the first record that is out of order: it is raised
  from within the run, at the arrival time of the record before it, after a ship process has
  been spawned for that record and for each record before it.
\<close>

theorem unsorted_arrivals_fail:
  assumes "\<not> sorted (map row_arrival_time_minutes A)"
  shows "fst (run_simulation nb nc ut A rd) \<noteq> None \<and>
         (0 < nb \<and> 0 < nc \<and>
          (\<forall>r \<in> set A. 0 \<le> row_arrival_time_minutes r \<and> 0 \<le> row_cargo_containers r * ut)
          \<longrightarrow> fails_at_descent A (run_state nb nc ut A rd))"
proof (intro conjI impI)
  from assms run_state_outcome [of ut A nb nc rd]
  show "fst (run_simulation nb nc ut A rd) \<noteq> None"
    by (auto simp: complete_def results_of_run times_def)
next
  assume h: "0 < nb \<and> 0 < nc \<and>
    (\<forall>r \<in> set A. 0 \<le> row_arrival_time_minutes r \<and> 0 \<le> row_cargo_containers r * ut)"
  from assms have "A \<noteq> []" by auto
  with h horizon_positive [of A] obtain hz where hz: "simulation_runtime A = Some hz" "0 < hz"
    and hor: "\<forall>r \<in> set A. row_arrival_time_minutes r < hz"
    by blast
  from h hz have run: "run_state nb nc ut A rd = run_loop ut (start_state nb nc A hz)"
    by (simp add: run_state_started)
  from assms have uns: "\<not> sorted (times A)" by (simp add: times_def)
  from h have "no_raise ut (start_state nb nc A hz)" by (simp add: no_raise_start)
  from unsorted_run_loop [OF uns hor _ started_start [OF hz(2)] this] h
  show "fails_at_descent A (run_state nb nc ut A rd)" by (simp add: run)
qed

lemma unsorted_run:
  "fst (run_state 1 1 2 [arrival 1 5 1, arrival 2 3 1] []) = Some (Negative_delay (- 2))"
  "now (snd (run_state 1 1 2 [arrival 1 5 1, arrival 2 3 1] [])) = 5"
  "ships (snd (run_state 1 1 2 [arrival 1 5 1, arrival 2 3 1] [])) = [At_berth_request 1 1 5]"
  "history (snd (run_state 1 1 2 [arrival 1 5 1, arrival 2 3 1] [])) = [Arrived 0]"
  "users (berths (snd (run_state 1 1 2 [arrival 1 5 1, arrival 2 3 1] []))) = [0]"
  by code_simp+

theorem unsorted_arrivals_fail_witness:
  "\<not> sorted (map row_arrival_time_minutes [arrival 1 5 1, arrival 2 3 1]) \<and>
   (0::int) < 1 \<and>
   0 \<le> row_arrival_time_minutes (arrival 1 5 1) \<and>
   0 \<le> row_cargo_containers (arrival 1 5 1) * 2 \<and>
   0 \<le> row_arrival_time_minutes (arrival 2 3 1) \<and>
   0 \<le> row_cargo_containers (arrival 2 3 1) * 2 \<and>
   fst (run_simulation 1 1 2 [arrival 1 5 1, arrival 2 3 1] []) \<noteq> None \<and>
   fails_at_descent [arrival 1 5 1, arrival 2 3 1]
     (run_state 1 1 2 [arrival 1 5 1, arrival 2 3 1] [])"
proof -
  have u: "\<not> sorted (map row_arrival_time_minutes [arrival 1 5 1, arrival 2 3 1])"
    by (simp add: arrival_def)
  have p: "\<forall>r \<in> set [arrival 1 5 1, arrival 2 3 1].
      0 \<le> row_arrival_time_minutes r \<and> 0 \<le> row_cargo_containers r * 2"
    by (simp add: arrival_def)
  from unsorted_arrivals_fail [OF u, of 1 1 2 "[]"] u p show ?thesis
    by (simp add: arrival_def)
qed

theorem unsorted_fails_after_spawn:
  "fst (run_state 1 1 2 [arrival 1 5 1, arrival 2 3 1] []) = Some (Negative_delay (- 2)) \<and>
   now (snd (run_state 1 1 2 [arrival 1 5 1, arrival 2 3 1] [])) = 5 \<and>
   ships (snd (run_state 1 1 2 [arrival 1 5 1, arrival 2 3 1] [])) = [At_berth_request 1 1 5] \<and>
   history (snd (run_state 1 1 2 [arrival 1 5 1, arrival 2 3 1] [])) = [Arrived 0] \<and>
   users (berths (snd (run_state 1 1 2 [arrival 1 5 1, arrival 2 3 1] []))) = [0]"
  by (simp add: unsorted_run)

text \<open>
  C7, as amended. No cargo size is checked and no record is rejected. A ship with no cargo
  is served like any other and unloads for no time. With a positive time for each container,
  every record has a cargo size that is not negative, and its unloading takes the cargo size
  times that time: the ship of a record with a negative cargo size leaves no record, since
  its negative unloading delay raises in the ship process.
\<close>

theorem cargo_of_records:
  assumes "0 < ut" and "d \<in> set (snd (run_simulation nb nc ut A rd))"
  shows "0 \<le> cargo_containers d \<and>
         time_unloading_complete d = time_crane_secured d + cargo_containers d * ut"
  using record_of_run [OF assms(2)] assms(1)
  by (auto simp: unload_record_def zero_le_mult_iff)

lemma no_cargo_run:
  "run_simulation 1 1 2 [arrival 1 0 0] [] =
     (None, [\<lparr>ship_id = 1, cargo_containers = 0, time_arrived_port = 0, time_docked = 0,
               time_crane_secured = 0, time_unloading_complete = 0, time_departed_port = 0\<rparr>])"
  by code_simp

lemma negative_cargo_run:
  "run_simulation 1 1 2 [arrival 1 0 (- 1), arrival 2 0 5] [] = (Some (Negative_delay (- 2)), [])"
  by code_simp

theorem cargo_of_records_witness:
  "(0::int) < 2 \<and>
   \<lparr>ship_id = 1, cargo_containers = 0, time_arrived_port = 0, time_docked = 0,
    time_crane_secured = 0, time_unloading_complete = 0, time_departed_port = 0\<rparr>
     \<in> set (snd (run_simulation 1 1 2 [arrival 1 0 0] [])) \<and>
   (0::int) \<le> 0 \<and> (0::int) = 0 + 0 * 2"
  using cargo_of_records
    [of 2 "\<lparr>ship_id = 1, cargo_containers = 0, time_arrived_port = 0, time_docked = 0,
            time_crane_secured = 0, time_unloading_complete = 0, time_departed_port = 0\<rparr>"
        1 1 "[arrival 1 0 0]" "[]"]
  by (simp add: no_cargo_run)

theorem cargo_not_validated:
  "run_simulation 1 1 2 [arrival 1 0 0] [] =
     (None, [\<lparr>ship_id = 1, cargo_containers = 0, time_arrived_port = 0, time_docked = 0,
               time_crane_secured = 0, time_unloading_complete = 0, time_departed_port = 0\<rparr>]) \<and>
   run_simulation 1 1 2 [arrival 1 0 (- 1), arrival 2 0 5] [] = (Some (Negative_delay (- 2)), [])"
  by (simp only: no_cargo_run negative_cargo_run)

text \<open>
  C10. A ship departs at the instant its unloading finishes: in every record the departure
  time is the time the unloading was complete, and the turnaround time is the wait for the
  berth, plus the wait for the crane, plus the unloading duration.
\<close>

theorem departs_when_unloaded:
  assumes "d \<in> set (snd (run_simulation nb nc ut A rd))"
  shows "time_departed_port d = time_unloading_complete d \<and>
         turnaround_time (kpis d)
           = wait_time_for_berth (kpis d) + wait_time_for_crane (kpis d)
             + cargo_containers d * ut"
  using record_of_run [OF assms] by (simp add: record_ok_def unload_record_def kpis_def)

theorem departs_when_unloaded_witness:
  "\<lparr>ship_id = 2, cargo_containers = 3, time_arrived_port = 0, time_docked = 10,
    time_crane_secured = 10, time_unloading_complete = 16, time_departed_port = 16\<rparr>
     \<in> set (snd (run_simulation 1 1 2 [arrival 1 0 5, arrival 2 0 3] [])) \<and>
   (16::int) = 16 \<and> (16::int) - 0 = (10 - 0) + (10 - 10) + 3 * 2"
  using departs_when_unloaded
    [of "\<lparr>ship_id = 2, cargo_containers = 3, time_arrived_port = 0, time_docked = 10,
          time_crane_secured = 10, time_unloading_complete = 16, time_departed_port = 16\<rparr>"
        1 1 2 "[arrival 1 0 5, arrival 2 0 3]" "[]"]
  by (simp add: two_ships_run)

text \<open>
  C3. One berth, one crane, two minutes for each container, arrivals (1,0,5) and (2,0,3):
  ship 1 docks and secures the crane at 0, finishes and departs at 10; ship 2 docks and
  secures the crane at 10, finishes and departs at 16; ship 2 waits 10 for the berth and 0
  for the crane.
\<close>

theorem scenario_two_ships:
  "run_simulation 1 1 2 [arrival 1 0 5, arrival 2 0 3] rd =
     (None,
      [\<lparr>ship_id = 1, cargo_containers = 5, time_arrived_port = 0, time_docked = 0,
        time_crane_secured = 0, time_unloading_complete = 10, time_departed_port = 10\<rparr>,
       \<lparr>ship_id = 2, cargo_containers = 3, time_arrived_port = 0, time_docked = 10,
        time_crane_secured = 10, time_unloading_complete = 16, time_departed_port = 16\<rparr>])
   \<and> map (\<lambda>k. (kpi_ship_id k, wait_time_for_berth k, wait_time_for_crane k))
         (the (calculate_and_save_results
                 (snd (run_simulation 1 1 2 [arrival 1 0 5, arrival 2 0 3] rd))))
       = [(1, 0, 0), (2, 10, 0)]"
  by code_simp

text \<open>
  C8. With an empty arrival table (and a port that can be built) the run ends without an
  exception and with no record; the results step then writes nothing.
\<close>

theorem empty_arrivals_complete:
  "0 < num_berths \<Longrightarrow> 0 < num_cranes \<Longrightarrow>
   run_simulation num_berths num_cranes unload_time [] rd = (None, [])
   \<and> calculate_and_save_results (snd (run_simulation num_berths num_cranes unload_time [] rd)) = None"
  by (simp add: run_simulation_def run_state_def simulation_runtime_def column_max_def
        env_run_def step_def schedule_def new_environment_def clear_def arrival_next_def
        calculate_and_save_results_def)

theorem empty_arrivals_complete_witness:
  "(0::int) < 2 \<and> (0::int) < 2 \<and> run_simulation 2 2 2 [] [] = (None, [])
   \<and> calculate_and_save_results (snd (run_simulation 2 2 2 [] [])) = None"
  using empty_arrivals_complete [of 2 2 2 "[]"]
  by (simp add: calculate_and_save_results_def)

text \<open>
  C9. Two runs with the same configuration and the same arrival table give the same outcome:
  the same exception, if any, and the same records with the same values in the same order.
  This holds of the run in which the heap may return any entry that no other entry precedes,
  and whatever the global list of results held before each run.
\<close>

theorem run_twice_identical:
  assumes "heap_run_simulation nb nc ut A rd r1" and "heap_run_simulation nb nc ut A rd' r2"
  shows "r1 = r2 \<and> r1 = run_simulation nb nc ut A rd"
  using assms by (simp add: heap_run_simulation_unique run_simulation_def run_state_def clear_def)


theorem run_twice_identical_witness:
  "heap_run_simulation 1 1 2 [arrival 1 0 5, arrival 2 0 3] []
     (run_simulation 1 1 2 [arrival 1 0 5, arrival 2 0 3] []) \<and>
   heap_run_simulation 1 1 2 [arrival 1 0 5, arrival 2 0 3]
     (snd (run_simulation 1 1 2 [arrival 1 0 5, arrival 2 0 3] []))
     (run_simulation 1 1 2 [arrival 1 0 5, arrival 2 0 3] []) \<and>
   run_simulation 1 1 2 [arrival 1 0 5, arrival 2 0 3] [] =
     (None,
      [\<lparr>ship_id = 1, cargo_containers = 5, time_arrived_port = 0, time_docked = 0,
        time_crane_secured = 0, time_unloading_complete = 10, time_departed_port = 10\<rparr>,
       \<lparr>ship_id = 2, cargo_containers = 3, time_arrived_port = 0, time_docked = 10,
        time_crane_secured = 10, time_unloading_complete = 16, time_departed_port = 16\<rparr>])"
proof -
  let ?A = "[arrival 1 0 5, arrival 2 0 3]"
  let ?r = "run_simulation 1 1 2 ?A []"
  have a: "heap_run_simulation 1 1 2 ?A [] ?r" by (simp add: heap_run_simulation_unique)
  have b: "heap_run_simulation 1 1 2 ?A (snd ?r) ?r"
    by (simp add: heap_run_simulation_unique run_simulation_def run_state_def clear_def)
  from run_twice_identical [OF a b] a b show ?thesis by (simp add: two_ships_run)
qed

end
